theory Spec2Isabelle
  imports Complex_Main "HOL-Library.AList" "HOL-Library.List_Lexorder" "HOL-Library.Char_ord"
begin

section \<open>Byte strings as Python 2 sees them\<close>

text \<open>
  The sources are Python 2: a \<open>str\<close> is a sequence of bytes, modelled as \<^typ>\<open>string\<close>
  (a list of 8-bit characters), and a \<open>unicode\<close> object is a sequence of code points,
  modelled as a list of naturals. The character classes are those of the C locale, which
  is what the methods of \<open>str\<close> use: only ASCII letters are cased.
\<close>

definition c_islower :: "char \<Rightarrow> bool" where
  "c_islower c = (97 \<le> (of_char c :: nat) \<and> (of_char c :: nat) \<le> 122)"

definition c_isupper :: "char \<Rightarrow> bool" where
  "c_isupper c = (65 \<le> (of_char c :: nat) \<and> (of_char c :: nat) \<le> 90)"

definition c_toupper :: "char \<Rightarrow> char" where
  "c_toupper c = (if c_islower c then char_of ((of_char c :: nat) - 32) else c)"

definition c_tolower :: "char \<Rightarrow> char" where
  "c_tolower c = (if c_isupper c then char_of ((of_char c :: nat) + 32) else c)"

text \<open>
  \<open>str.title()\<close>: a letter that follows a non-letter is put in upper case, a letter that
  follows a letter in lower case; the flag says whether the previous byte was a letter.
\<close>

fun string_title :: "bool \<Rightarrow> string \<Rightarrow> string" where
  "string_title previous_is_cased [] = []"
| "string_title previous_is_cased (c # s) =
     (if c_islower c then
        (if \<not> previous_is_cased then c_toupper c else c) # string_title True s
      else if c_isupper c then
        (if previous_is_cased then c_tolower c else c) # string_title True s
      else c # string_title False s)"

definition title :: "string \<Rightarrow> string" where
  "title s = string_title False s"

text \<open>
  \<open>str.isupper()\<close>: no lower-case letter and at least one upper-case letter; digits and
  punctuation are ignored, and the empty string is not upper case.
\<close>

fun string_isupper :: "bool \<Rightarrow> string \<Rightarrow> bool" where
  "string_isupper cased [] = cased"
| "string_isupper cased (c # s) =
     (if c_islower c then False
      else if \<not> cased \<and> c_isupper c then string_isupper True s
      else string_isupper cased s)"

definition isupper :: "string \<Rightarrow> bool" where
  "isupper s = string_isupper False s"


section \<open>\<open>NerExtractor.truecase\<close> (fenrir/extraction/entity.py)\<close>

text \<open>
  Lists are mutable objects, so the function is modelled over a store of list objects:
  a \<open>heap\<close> is the list of all list objects and a reference is an index into it.
  \<open>tokens = tokens[:]\<close> allocates a copy at the next free index and rebinds the local
  name to it; the loop then assigns \<open>tokens[i]\<close> in that copy, for \<open>i\<close> from \<open>0\<close> to
  \<open>len(tokens) - 1\<close>. \<open>tokens[i][0]\<close> is read only when \<open>len(tokens[i]) > 3\<close>, so it
  never fails. A reference that is not allocated gives \<open>None\<close>.
\<close>

type_synonym heap = "string list list"

definition truecase_step :: "nat \<Rightarrow> nat \<Rightarrow> heap \<Rightarrow> heap" where
  "truecase_step tokens i h =
     (if length (h ! tokens ! i) \<le> 3 \<or> hd (h ! tokens ! i) = CHR ''@'' then h
      else if isupper (h ! tokens ! i)
        then h[tokens := (h ! tokens)[i := title (h ! tokens ! i)]]
      else h)"

definition truecase :: "heap \<Rightarrow> nat \<Rightarrow> (heap \<times> nat) option" where
  "truecase h tokens =
     (if tokens < length h then
        (let new = length h;
             h1 = h @ [h ! tokens]
         in Some (fold (truecase_step new) [0..<length (h1 ! new)] h1, new))
      else None)"

text \<open>What the loop does to one token, as a function of the token alone.\<close>

definition truecase_token :: "string \<Rightarrow> string" where
  "truecase_token t =
     (if 3 < length t \<and> hd t \<noteq> CHR ''@'' \<and> isupper t then title t else t)"



section \<open>The UTF-8 and latin-1 codecs of Python 2.7\<close>

text \<open>
  \<open>to_utf_8_dict\<close> calls \<open>str.decode("utf-8")\<close>, \<open>str.decode("latin-1")\<close> and
  \<open>unicode.encode("utf-8")\<close>. They are modelled as the interpreter implements them.

  The decoder is strict: it fails (\<open>None\<close>, the \<open>UnicodeDecodeError\<close>) on a stray or
  missing continuation byte, on the lead bytes \<open>C0\<close>, \<open>C1\<close> and \<open>F5\<close> to \<open>FF\<close>, on overlong
  three- and four-byte forms and on values above \<open>10FFFF\<close>. Python 2.7 does accept the
  three-byte forms of surrogates. A continuation byte is one with \<open>c & 0xC0 = 0x80\<close>; the
  masks \<open>& 0x1f\<close>, \<open>& 0x0f\<close>, \<open>& 0x07\<close> and \<open>& 0x3f\<close> are the remainders below.
\<close>

definition is_cont :: "char \<Rightarrow> bool" where
  "is_cont c = (128 \<le> (of_char c :: nat) \<and> (of_char c :: nat) < 192)"

fun utf8_decode :: "string \<Rightarrow> nat list option" where
  "utf8_decode [] = Some []"
| "utf8_decode (c # s) =
     (if (of_char c :: nat) < 128 then map_option ((#) (of_char c)) (utf8_decode s)
      else if 194 \<le> (of_char c :: nat) \<and> (of_char c :: nat) < 224 then
        (case s of
           c1 # s1 \<Rightarrow>
             if is_cont c1
             then map_option ((#) ((of_char c mod 32) * 64 + of_char c1 mod 64)) (utf8_decode s1)
             else None
         | _ \<Rightarrow> None)
      else if 224 \<le> (of_char c :: nat) \<and> (of_char c :: nat) < 240 then
        (case s of
           c1 # c2 # s2 \<Rightarrow>
             if is_cont c1 \<and> is_cont c2
                \<and> \<not> ((of_char c :: nat) = 224 \<and> (of_char c1 :: nat) < 160)
             then map_option ((#) ((of_char c mod 16) * 4096 + (of_char c1 mod 64) * 64
                                    + of_char c2 mod 64)) (utf8_decode s2)
             else None
         | _ \<Rightarrow> None)
      else if 240 \<le> (of_char c :: nat) \<and> (of_char c :: nat) < 245 then
        (case s of
           c1 # c2 # c3 # s3 \<Rightarrow>
             if is_cont c1 \<and> is_cont c2 \<and> is_cont c3
                \<and> \<not> ((of_char c :: nat) = 240 \<and> (of_char c1 :: nat) < 144)
                \<and> \<not> ((of_char c :: nat) = 244 \<and> (of_char c1 :: nat) > 143)
             then map_option ((#) ((of_char c mod 8) * 262144 + (of_char c1 mod 64) * 4096
                                    + (of_char c2 mod 64) * 64 + of_char c3 mod 64)) (utf8_decode s3)
             else None
         | _ \<Rightarrow> None)
      else None)"

definition utf8_valid :: "string \<Rightarrow> bool" where
  "utf8_valid s = (utf8_decode s \<noteq> None)"

text \<open>
  The encoder never fails. A high surrogate followed by a low surrogate is combined into
  one four-byte sequence; a surrogate on its own is written in three bytes.
\<close>

definition enc2 :: "nat \<Rightarrow> string" where
  "enc2 ch = [char_of (192 + ch div 64), char_of (128 + ch mod 64)]"

definition enc3 :: "nat \<Rightarrow> string" where
  "enc3 ch = [char_of (224 + ch div 4096), char_of (128 + (ch div 64) mod 64),
              char_of (128 + ch mod 64)]"

definition enc4 :: "nat \<Rightarrow> string" where
  "enc4 ch = [char_of (240 + ch div 262144), char_of (128 + (ch div 4096) mod 64),
              char_of (128 + (ch div 64) mod 64), char_of (128 + ch mod 64)]"

fun utf8_encode :: "nat list \<Rightarrow> string" where
  "utf8_encode [] = []"
| "utf8_encode (ch # s) =
     (if ch < 128 then char_of ch # utf8_encode s
      else if ch < 2048 then enc2 ch @ utf8_encode s
      else if ch < 65536 then
        (case s of
           ch2 # s' \<Rightarrow>
             if 55296 \<le> ch \<and> ch \<le> 56319 \<and> 56320 \<le> ch2 \<and> ch2 \<le> 57343
             then enc4 (((ch - 55296) * 1024 + (ch2 - 56320)) + 65536) @ utf8_encode s'
             else enc3 ch @ utf8_encode s
         | [] \<Rightarrow> enc3 ch @ utf8_encode s)
      else enc4 ch @ utf8_encode s)"

text \<open>latin-1 maps every byte to the code point of the same value and never fails.\<close>

definition latin1_decode :: "string \<Rightarrow> nat list" where
  "latin1_decode s = map of_char s"


section \<open>\<open>to_utf_8_dict\<close> and \<open>json_dump\<close> (pipelines/pipeline.py)\<close>

text \<open>
  The values the function is applied to: byte strings, unicode strings, the containers
  \<open>list\<close>, \<open>tuple\<close> and \<open>dict\<close>, and leaves that are neither text nor iterable
  (\<open>PInt\<close> for numbers, with \<open>True\<close> and \<open>False\<close> as \<open>1\<close> and \<open>0\<close>, which is how Python
  compares and hashes them; \<open>PNone\<close>). A dict is the list of its items in iteration
  order.
\<close>

datatype pyval =
    PStr string
  | PUnicode "nat list"
  | PInt int
  | PNone
  | PList "pyval list"
  | PTuple "pyval list"
  | PDict "(pyval \<times> pyval) list"

text \<open>
  \<open>dict(pairs)\<close> inserts the pairs one after the other; a key that is already present
  keeps its place and takes the later value.
\<close>

definition dict_of :: "('k \<times> 'v) list \<Rightarrow> ('k \<times> 'v) list" where
  "dict_of ps = fold (\<lambda>(k, v) d. AList.update k v d) ps []"

text \<open>
  The branches are tried in the order of the source: \<open>unicode\<close>, \<open>str\<close>, \<open>Mapping\<close>,
  \<open>Iterable\<close>, anything else. In the \<open>Mapping\<close> branch the function is mapped over
  \<open>data.iteritems()\<close>; each item is a 2-tuple, which takes the \<open>Iterable\<close> branch and
  comes back as the 2-tuple of the converted key and the converted value. In the
  \<open>Iterable\<close> branch \<open>type(data)\<close> rebuilds a list from a list and a tuple from a tuple.
\<close>

fun to_utf_8_dict :: "pyval \<Rightarrow> pyval" where
  "to_utf_8_dict (PUnicode u) = PStr (utf8_encode u)"
| "to_utf_8_dict (PStr s) =
     (case utf8_decode s of
        Some unicode_data \<Rightarrow> PStr s
      | None \<Rightarrow> PStr (utf8_encode (latin1_decode s)))"
| "to_utf_8_dict (PDict items) =
     PDict (dict_of (map (\<lambda>(k, v). (to_utf_8_dict k, to_utf_8_dict v)) items))"
| "to_utf_8_dict (PList xs) = PList (map to_utf_8_dict xs)"
| "to_utf_8_dict (PTuple xs) = PTuple (map to_utf_8_dict xs)"
| "to_utf_8_dict (PInt i) = PInt i"
| "to_utf_8_dict PNone = PNone"

text \<open>
  \<open>json_dump\<close> writes \<open>json.dumps(to_utf_8_dict(obj), ...)\<close> to the stream. The
  serialiser \<open>dumps\<close> is the library's and stays a parameter; the stream is the text
  written so far.
\<close>

definition json_dump :: "(pyval \<Rightarrow> string) \<Rightarrow> pyval \<Rightarrow> string \<Rightarrow> string" where
  "json_dump dumps obj fp = fp @ dumps (to_utf_8_dict obj)"

text \<open>
  The text a byte string stands for when it is read the way the function reads it:
  as UTF-8 if that decodes, as latin-1 otherwise.
\<close>

definition decode_text :: "string \<Rightarrow> nat list" where
  "decode_text s = (case utf8_decode s of Some u \<Rightarrow> u | None \<Rightarrow> latin1_decode s)"

text \<open>A unicode object holds code points up to \<open>10FFFF\<close> only.\<close>

fun code_points_ok :: "pyval \<Rightarrow> bool" where
  "code_points_ok (PUnicode u) = list_all (\<lambda>ch. ch < 1114112) u"
| "code_points_ok (PStr s) = True"
| "code_points_ok (PInt i) = True"
| "code_points_ok PNone = True"
| "code_points_ok (PList xs) = list_all code_points_ok xs"
| "code_points_ok (PTuple xs) = list_all code_points_ok xs"
| "code_points_ok (PDict items) =
     list_all (\<lambda>(k, v). code_points_ok k \<and> code_points_ok v) items"

text \<open>
  A value is clean when every string in it, at any depth and as key or value, is a byte
  string that decodes as UTF-8, and no key occurs twice in a dict.
\<close>

fun utf8_clean :: "pyval \<Rightarrow> bool" where
  "utf8_clean (PStr s) = utf8_valid s"
| "utf8_clean (PUnicode u) = False"
| "utf8_clean (PInt i) = True"
| "utf8_clean PNone = True"
| "utf8_clean (PList xs) = list_all utf8_clean xs"
| "utf8_clean (PTuple xs) = list_all utf8_clean xs"
| "utf8_clean (PDict items) =
     (distinct (map fst items) \<and> list_all (\<lambda>(k, v). utf8_clean k \<and> utf8_clean v) items)"


section \<open>Errors and collaborators\<close>

text \<open>
  An exception is a value: \<open>KeyError\<close> for a missing dict key, \<open>Raised msg\<close> for anything
  a collaborator raises. A call that can raise returns \<open>error + 'a\<close>, with \<open>Inl\<close> the
  exception. Text read back from a JSON checkpoint is unicode.
\<close>

datatype error = KeyError | Raised string

type_synonym unicode = "nat list"

text \<open>
  The collaborators of the verification stage are not part of the sources and are taken
  as parameters: \<open>in_blacklist x\<close> is \<open>x in black_domains\<close>; the four functions of
  \<open>TextUtil\<close>; \<open>fetch\<close> is what the fetcher obtains for one URL (\<open>None\<close> when the fetch
  failed). \<open>compile_fuzzy_patterns\<close> returns a dict from segment to pattern.
\<close>

record text_util =
  in_blacklist :: "pyval \<Rightarrow> bool"
  simplified_text :: "unicode \<Rightarrow> unicode"
  extract_body :: "unicode \<Rightarrow> string option \<Rightarrow> error + (unicode \<times> string)"
  compile_fuzzy_patterns :: "unicode list \<Rightarrow> (unicode \<rightharpoonup> string)"
  fuzzy_search :: "unicode \<Rightarrow> unicode \<Rightarrow> string \<Rightarrow> error + (real \<times> string)"
  fetch :: "unicode \<Rightarrow> string option"


section \<open>\<open>step_6_filter_out_unrelated\<close>: discovery and deduplication\<close>

text \<open>
  One search hit (\<open>gse_found_item\<close>) has a \<open>link\<close> and further annotation fields, kept
  together as \<open>annotation\<close>; one entry of the search checkpoint has the \<open>segment\<close> that was
  queried and the hits in \<open>foundItems\<close>.
\<close>

record gse_found_item =
  link :: unicode
  annotation :: string

record segment_entry =
  segment :: unicode
  foundItems :: "gse_found_item list"

text \<open>
  The three dicts and the set of the stage. A dict is the list of its items in the order
  of first insertion, without repeated keys; a set is the list of its elements in the
  order of first insertion, without repetition. (Python iterates dicts and sets in an
  order of its own; nothing below depends on the order.)
\<close>

record discovery =
  related_url2gse :: "(unicode \<times> gse_found_item) list"
  related_url2html :: "(unicode \<times> string option) list"
  related_url2segm :: "(unicode \<times> unicode list) list"
  uniq_segments :: "unicode list"

definition set_add :: "'a list \<Rightarrow> 'a \<Rightarrow> 'a list" where
  "set_add xs x = (if x \<in> set xs then xs else xs @ [x])"

definition setdefault :: "'k \<Rightarrow> 'v \<Rightarrow> ('k \<times> 'v) list \<Rightarrow> ('k \<times> 'v) list" where
  \<comment> \<open>\<open>if k not in d: d[k] = v\<close>\<close>
  "setdefault k v d = (if k \<in> fst ` set d then d else d @ [(k, v)])"

definition add_found_item :: "text_util \<Rightarrow> unicode \<Rightarrow> gse_found_item \<Rightarrow> discovery \<Rightarrow> discovery" where
  "add_found_item tu segment_text gse_found_item d =
     (let item_url = link gse_found_item in
      if in_blacklist tu (PUnicode item_url) then d
      else d\<lparr>
        related_url2gse := setdefault item_url gse_found_item (related_url2gse d),
        related_url2segm :=
          (case map_of (related_url2segm d) item_url of
             None \<Rightarrow> related_url2segm d @ [(item_url, [segment_text])]
           | Some segs \<Rightarrow> AList.update item_url (set_add segs segment_text) (related_url2segm d)),
        related_url2html := setdefault item_url None (related_url2html d)\<rparr>)"

definition add_segment_entry :: "text_util \<Rightarrow> segment_entry \<Rightarrow> discovery \<Rightarrow> discovery" where
  "add_segment_entry tu segment_entry d =
     (let segment_text = simplified_text tu (segment segment_entry) in
      fold (add_found_item tu segment_text) (foundItems segment_entry)
        (d\<lparr>uniq_segments := set_add (uniq_segments d) segment_text\<rparr>))"

definition discover :: "text_util \<Rightarrow> segment_entry list \<Rightarrow> discovery" where
  "discover tu gse =
     fold (add_segment_entry tu) gse
       \<lparr>related_url2gse = [], related_url2html = [], related_url2segm = [], uniq_segments = []\<rparr>"

text \<open>
  Modelled from the spec: \<open>PageFetcher.fetch_urls\<close>, which is not in the sources. It is
  given the dict \<open>related_url2html\<close> and writes the result of each fetch back under the
  URL that was fetched; a failed fetch leaves an absent body and does not abort the batch.
\<close>

definition fetch_urls :: "text_util \<Rightarrow> (unicode \<times> string option) list \<Rightarrow> (unicode \<times> string option) list" where
  "fetch_urls tu d = map (\<lambda>(u, _). (u, fetch tu u)) d"


section \<open>\<open>step_6_filter_out_unrelated\<close>: fuzzy verification\<close>

record fuzzy_match =
  match :: string
  ratio :: real

record candidate =
  url :: unicode
  segments :: "unicode list"
  body :: unicode
  bestRatio :: real
  foundMatches :: "fuzzy_match list"
  highRatio :: bool
  gseData :: gse_found_item
  html :: "string option"

text \<open>
  The loop over the segments of one candidate, with \<open>best_ratio\<close> and \<open>matches\<close> as they
  stand. \<open>fuzzy_patterns[segment]\<close> raises \<open>KeyError\<close> for a segment without a pattern.
\<close>

fun match_segments ::
  "text_util \<Rightarrow> (unicode \<rightharpoonup> string) \<Rightarrow> unicode \<Rightarrow> unicode list \<Rightarrow> real \<Rightarrow> fuzzy_match list
     \<Rightarrow> error + (real \<times> fuzzy_match list)" where
  "match_segments tu fuzzy_patterns b [] best_ratio matches = Inr (best_ratio, matches)"
| "match_segments tu fuzzy_patterns b (seg # rest) best_ratio matches =
     (case fuzzy_patterns seg of
        None \<Rightarrow> Inl KeyError
      | Some fuzzy_pattern \<Rightarrow>
          (case fuzzy_search tu b seg fuzzy_pattern of
             Inl e \<Rightarrow> Inl e
           | Inr (r, m) \<Rightarrow>
               match_segments tu fuzzy_patterns b rest
                 (if r > best_ratio then r else best_ratio)
                 (matches @ [\<lparr>match = m, ratio = r\<rparr>])))"

text \<open>One round of the loop over \<open>related_urls\<close>: the record appended for \<open>rel_url\<close>.\<close>

definition verify_url ::
  "text_util \<Rightarrow> discovery \<Rightarrow> (unicode \<times> string option) list \<Rightarrow> (unicode \<rightharpoonup> string) \<Rightarrow> unicode
     \<Rightarrow> error + candidate" where
  "verify_url tu d url2html fuzzy_patterns rel_url =
     (case map_of url2html rel_url of
        None \<Rightarrow> Inl KeyError
      | Some h \<Rightarrow>
     (case extract_body tu rel_url h of
        Inl e \<Rightarrow> Inl e
      | Inr (b0, _) \<Rightarrow>
     (let b = simplified_text tu b0 in
     (case map_of (related_url2segm d) rel_url of
        None \<Rightarrow> Inl KeyError
      | Some segs \<Rightarrow>
     (case match_segments tu fuzzy_patterns b segs 0 [] of
        Inl e \<Rightarrow> Inl e
      | Inr (best_ratio, matches) \<Rightarrow>
     (case map_of (related_url2gse d) rel_url of
        None \<Rightarrow> Inl KeyError
      | Some gse_data \<Rightarrow>
          Inr \<lparr>url = rel_url, segments = segs, body = b, bestRatio = best_ratio,
               foundMatches = matches, highRatio = (best_ratio > 0.5),
               gseData = gse_data, html = h\<rparr>))))))"

text \<open>The loop over \<open>related_urls\<close>; an exception in any round ends it.\<close>

fun verify_urls ::
  "text_util \<Rightarrow> discovery \<Rightarrow> (unicode \<times> string option) list \<Rightarrow> (unicode \<rightharpoonup> string) \<Rightarrow> unicode list
     \<Rightarrow> error + candidate list" where
  "verify_urls tu d url2html fuzzy_patterns [] = Inr []"
| "verify_urls tu d url2html fuzzy_patterns (rel_url # rest) =
     (case verify_url tu d url2html fuzzy_patterns rel_url of
        Inl e \<Rightarrow> Inl e
      | Inr c \<Rightarrow>
          (case verify_urls tu d url2html fuzzy_patterns rest of
             Inl e \<Rightarrow> Inl e
           | Inr cs \<Rightarrow> Inr (c # cs)))"

text \<open>
  The body of the loop over the origins, for one origin: from the parsed search
  checkpoint \<open>gse\<close> to the list \<open>filtered_urls\<close> that is written.
\<close>

definition step_6_origin :: "text_util \<Rightarrow> segment_entry list \<Rightarrow> error + candidate list" where
  "step_6_origin tu gse =
     (let d = discover tu gse;
          url2html = fetch_urls tu (related_url2html d);
          related_urls = map fst url2html;
          fuzzy_patterns = compile_fuzzy_patterns tu (uniq_segments d)
      in verify_urls tu d url2html fuzzy_patterns related_urls)"

text \<open>
  The stage: the origins are processed in order, and the file of origin \<open>i\<close> is written
  at the end of round \<open>i\<close>. There is no \<open>try\<close> in the stage, so an exception in round \<open>i\<close>
  ends the stage with the files of the rounds before \<open>i\<close> written and no other. The
  result is the files written, keyed by origin index, and the exception if there was one.
\<close>

fun step_6_loop ::
  "text_util \<Rightarrow> nat \<Rightarrow> segment_entry list list \<Rightarrow> (nat \<times> candidate list) list
     \<Rightarrow> (nat \<times> candidate list) list \<times> error option" where
  "step_6_loop tu i [] files = (files, None)"
| "step_6_loop tu i (gse # rest) files =
     (case step_6_origin tu gse of
        Inl e \<Rightarrow> (files, Some e)
      | Inr filtered_urls \<Rightarrow> step_6_loop tu (Suc i) rest (files @ [(i, filtered_urls)]))"

definition step_6_filter_out_unrelated ::
  "text_util \<Rightarrow> segment_entry list list \<Rightarrow> (nat \<times> candidate list) list \<times> error option" where
  "step_6_filter_out_unrelated tu gses = step_6_loop tu 0 gses []"


section \<open>Vocabulary for the properties of the verification stage\<close>

text \<open>
  The hits of a checkpoint in the order in which the two nested loops visit them, and
  those that pass the blacklist test, each with the simplified segment that produced it.
\<close>

definition hits :: "text_util \<Rightarrow> segment_entry list \<Rightarrow> (unicode \<times> gse_found_item) list" where
  "hits tu gse =
     concat (map (\<lambda>e. map (Pair (simplified_text tu (segment e)))
                          (filter (\<lambda>it. \<not> in_blacklist tu (PUnicode (link it))) (foundItems e))) gse)"

definition all_found_items :: "segment_entry list \<Rightarrow> gse_found_item list" where
  "all_found_items gse = concat (map foundItems gse)"

text \<open>
  What one hit that passed the blacklist test does to the three dicts, and to the dict
  of segments alone; the dicts before the first round.
\<close>

definition add_hit :: "unicode \<times> gse_found_item \<Rightarrow> discovery \<Rightarrow> discovery" where
  "add_hit h d =
     d\<lparr>related_url2gse := setdefault (link (snd h)) (snd h) (related_url2gse d),
       related_url2segm :=
         (case map_of (related_url2segm d) (link (snd h)) of
            None \<Rightarrow> related_url2segm d @ [(link (snd h), [fst h])]
          | Some segs \<Rightarrow> AList.update (link (snd h)) (set_add segs (fst h)) (related_url2segm d)),
       related_url2html := setdefault (link (snd h)) None (related_url2html d)\<rparr>"

definition empty_discovery :: discovery where
  "empty_discovery =
     \<lparr>related_url2gse = [], related_url2html = [], related_url2segm = [], uniq_segments = []\<rparr>"

definition segm_step :: "unicode \<times> gse_found_item \<Rightarrow> (unicode \<times> unicode list) list \<Rightarrow> (unicode \<times> unicode list) list" where
  "segm_step h m =
     (case map_of m (link (snd h)) of
        None \<Rightarrow> m @ [(link (snd h), [fst h])]
      | Some segs \<Rightarrow> AList.update (link (snd h)) (set_add segs (fst h)) m)"

text \<open>
  An example run: two segments; the first has three hits, of which the second is
  blacklisted; the second segment finds the first page again. The page of the first hit
  quotes the origin, the other does not.
\<close>

definition ex_text_util :: text_util where
  "ex_text_util =
     \<lparr>in_blacklist = (\<lambda>x. x = PUnicode (map of_char ''http://spam.example/x'')),
      simplified_text = (\<lambda>s. s),
      extract_body = (\<lambda>u h. case h of None \<Rightarrow> Inl (Raised ''no html'')
                                | Some page \<Rightarrow> Inr (map of_char page, ''en'')),
      compile_fuzzy_patterns = (\<lambda>segs s. if s \<in> set segs then Some ''pattern'' else None),
      fuzzy_search = (\<lambda>b s p. Inr (if b = map of_char ''quoting page'' then 0.62 else 0.2, ''m'')),
      fetch = (\<lambda>u. if u = map of_char ''http://a.example/1'' then Some ''quoting page''
                   else if u = map of_char ''http://down.example/'' then None
                   else Some ''other page'')\<rparr>"

definition ex_gse :: "segment_entry list" where
  "ex_gse =
     [\<lparr>segment = map of_char ''first quote'',
       foundItems = [\<lparr>link = map of_char ''http://a.example/1'', annotation = ''hit 1''\<rparr>,
                     \<lparr>link = map of_char ''http://spam.example/x'', annotation = ''hit 2''\<rparr>,
                     \<lparr>link = map of_char ''http://c.example/3'', annotation = ''hit 3''\<rparr>]\<rparr>,
      \<lparr>segment = map of_char ''second quote'',
       foundItems = [\<lparr>link = map of_char ''http://a.example/1'', annotation = ''hit 4''\<rparr>]\<rparr>]"

definition ex_candidate_a :: candidate where
  "ex_candidate_a =
     \<lparr>url = map of_char ''http://a.example/1'',
      segments = [map of_char ''first quote'', map of_char ''second quote''],
      body = map of_char ''quoting page'',
      bestRatio = 0.62,
      foundMatches = [\<lparr>match = ''m'', ratio = 0.62\<rparr>, \<lparr>match = ''m'', ratio = 0.62\<rparr>],
      highRatio = True,
      gseData = \<lparr>link = map of_char ''http://a.example/1'', annotation = ''hit 1''\<rparr>,
      html = Some ''quoting page''\<rparr>"

definition ex_candidate_c :: candidate where
  "ex_candidate_c =
     \<lparr>url = map of_char ''http://c.example/3'',
      segments = [map of_char ''first quote''],
      body = map of_char ''other page'',
      bestRatio = 0.2,
      foundMatches = [\<lparr>match = ''m'', ratio = 0.2\<rparr>],
      highRatio = False,
      gseData = \<lparr>link = map of_char ''http://c.example/3'', annotation = ''hit 3''\<rparr>,
      html = Some ''other page''\<rparr>"




section \<open>\<open>step_7_gen_cr_data\<close>: metadata extraction\<close>

text \<open>
  The collaborators of the stage, \<open>EntityExtractor\<close>, \<open>EntityNormalizer\<close> and the
  blacklist, are not part of the sources and are taken as parameters; each call can
  raise. An article is the parsed page: its \<open>text\<close> and the rest. Normalised dates are
  values of a linearly ordered type \<open>'d\<close>, ordered as Python orders them. \<open>lower\<close> is
  \<open>unicode.lower\<close>.
\<close>

record article =
  article_text :: unicode
  article_rest :: string

record 'd extraction =
  blacklist_contains :: "pyval \<Rightarrow> bool"
  parse_article :: "string \<Rightarrow> string option \<Rightarrow> error + article"
  extract_titles :: "article \<Rightarrow> error + unicode list"
  extract_sources :: "gse_found_item \<Rightarrow> error + unicode list"
  extract_dates :: "gse_found_item \<Rightarrow> error + string list"
  normalize_dates :: "string list \<Rightarrow> error + 'd list"
  extract_authors :: "article \<Rightarrow> gse_found_item \<Rightarrow> error + string list"
  normalize_authors :: "string list \<Rightarrow> article \<Rightarrow> error + unicode list"
  lower :: "unicode \<Rightarrow> unicode"

text \<open>
  The dict appended to \<open>output_data\<close>; its keys are \<open>id\<close>, \<open>url\<close>, \<open>text\<close>, \<open>title\<close>,
  \<open>sources\<close>, \<open>pub_date\<close>, \<open>authors\<close> and \<open>body\<close>.
\<close>

record 'd cr_entry =
  cr_id :: int
  cr_url :: string
  cr_text :: unicode
  cr_title :: unicode
  cr_sources :: "unicode list"
  cr_pub_date :: "'d option"
  cr_authors :: "unicode list"
  cr_body :: string

text \<open>What the stage logs.\<close>

datatype log_record =
    HtmlCannotBeParsed string
  | StrangeDocument
  | ErrorExtractingDates string
  | ErrorExtractingAuthors string
  | SavingEntries nat

text \<open>\<open>min(xs)\<close>: the first least element; \<open>ValueError\<close> on an empty sequence.\<close>

fun py_min :: "'a::linorder list \<Rightarrow> error + 'a" where
  "py_min [] = Inl (Raised ''min() arg is an empty sequence'')"
| "py_min (x # xs) = Inr (fold (\<lambda>y m. if y < m then y else m) xs x)"

text \<open>
  The first two statements of the \<open>try\<close> block for the publication date, and the whole
  block: the exception that ends it, or the value of \<open>pub_date\<close>.
\<close>

definition normalized_dates :: "'d extraction \<Rightarrow> gse_found_item \<Rightarrow> error + 'd list" where
  "normalized_dates ex gse_data =
     (case extract_dates ex gse_data of
        Inl e \<Rightarrow> Inl e
      | Inr raw_dates \<Rightarrow> normalize_dates ex raw_dates)"

definition try_pub_date :: "('d::linorder) extraction \<Rightarrow> gse_found_item \<Rightarrow> error + 'd option" where
  "try_pub_date ex gse_data =
     (case normalized_dates ex gse_data of
        Inl e \<Rightarrow> Inl e
      | Inr dates \<Rightarrow>
          if length dates > 0
          then (case py_min dates of Inl e \<Rightarrow> Inl e | Inr d \<Rightarrow> Inr (Some d))
          else Inr None)"

text \<open>The \<open>try\<close> block for the authors; \<open>list(set(...))\<close> drops repetitions.\<close>

definition try_authors :: "'d extraction \<Rightarrow> article \<Rightarrow> gse_found_item \<Rightarrow> error + unicode list" where
  "try_authors ex art gse_data =
     (case extract_authors ex art gse_data of
        Inl e \<Rightarrow> Inl e
      | Inr raw_authors \<Rightarrow>
          (case normalize_authors ex raw_authors art of
             Inl e \<Rightarrow> Inl e
           | Inr names \<Rightarrow> Inr (remdups (map (lower ex) names))))"

text \<open>
  One round of the loop over \<open>link_entries\<close>, with \<open>annotation_id\<close> as it stands. The
  result is an exception that no \<open>try\<close> catches, or the entry appended in this round
  (\<open>None\<close> when the round ends in \<open>continue\<close>) with what the round logs. The link entry
  is a record of the verification stage, read back from its checkpoint.
\<close>

definition process_link_entry ::
  "('d::linorder) extraction \<Rightarrow> int \<Rightarrow> candidate \<Rightarrow> error + ('d cr_entry option \<times> log_record list)" where
  "process_link_entry ex annotation_id link_entry =
     (if \<not> highRatio link_entry then Inr (None, [])
      else
        let u = utf8_encode (url link_entry);
            b = utf8_encode (body link_entry)
        in
        if blacklist_contains ex (PStr u) then Inr (None, [])
        else
          (case parse_article ex u (html link_entry) of
             Inl e \<Rightarrow> Inr (None, [HtmlCannotBeParsed u])
           | Inr art \<Rightarrow>
          (case extract_titles ex art of
             Inl e \<Rightarrow> Inl e
           | Inr titles \<Rightarrow>
               if length titles = 0 then Inr (None, [StrangeDocument])
               else
          (case extract_sources ex (gseData link_entry) of
             Inl e \<Rightarrow> Inl e
           | Inr srcs \<Rightarrow>
               let pd = (case try_pub_date ex (gseData link_entry) of
                           Inl e \<Rightarrow> (None, [ErrorExtractingDates u])
                         | Inr p \<Rightarrow> (p, []));
                   au = (case try_authors ex art (gseData link_entry) of
                           Inl e \<Rightarrow> ([], [ErrorExtractingAuthors u])
                         | Inr a \<Rightarrow> (a, []))
               in Inr (Some \<lparr>cr_id = annotation_id, cr_url = u, cr_text = article_text art,
                               cr_title = hd titles,
                               cr_sources = remdups (map (lower ex) srcs),
                               cr_pub_date = fst pd, cr_authors = fst au, cr_body = b\<rparr>,
                       snd pd @ snd au)))))"

text \<open>
  The loop over \<open>link_entries\<close>: \<open>annotation_id\<close> goes up by one in a round that appends
  an entry and stays in a round that ends in \<open>continue\<close>.
\<close>

fun step_7_entries ::
  "('d::linorder) extraction \<Rightarrow> candidate list \<Rightarrow> int \<Rightarrow> 'd cr_entry list \<Rightarrow> log_record list
     \<Rightarrow> error + ('d cr_entry list \<times> log_record list)" where
  "step_7_entries ex [] annotation_id output_data lg = Inr (output_data, lg)"
| "step_7_entries ex (link_entry # rest) annotation_id output_data lg =
     (case process_link_entry ex annotation_id link_entry of
        Inl e \<Rightarrow> Inl e
      | Inr (None, l) \<Rightarrow> step_7_entries ex rest annotation_id output_data (lg @ l)
      | Inr (Some entry, l) \<Rightarrow>
          step_7_entries ex rest (annotation_id + 1) (output_data @ [entry]) (lg @ l))"

definition step_7_origin ::
  "('d::linorder) extraction \<Rightarrow> candidate list \<Rightarrow> error + ('d cr_entry list \<times> log_record list)" where
  "step_7_origin ex link_entries = step_7_entries ex link_entries 1 [] []"

text \<open>
  The stage: one file per origin, written at the end of the round of the origin; an
  exception that is not caught in the round ends the stage. (What such a round had
  logged before the exception is left out of the result.)
\<close>

fun step_7_loop ::
  "('d::linorder) extraction \<Rightarrow> nat \<Rightarrow> candidate list list \<Rightarrow> (nat \<times> 'd cr_entry list) list
     \<Rightarrow> log_record list \<Rightarrow> (nat \<times> 'd cr_entry list) list \<times> log_record list \<times> error option" where
  "step_7_loop ex i [] files lg = (files, lg, None)"
| "step_7_loop ex i (link_entries # rest) files lg =
     (case step_7_origin ex link_entries of
        Inl e \<Rightarrow> (files, lg, Some e)
      | Inr (output_data, l) \<Rightarrow>
          step_7_loop ex (Suc i) rest (files @ [(i, output_data)])
            (lg @ l @ [SavingEntries (length output_data)]))"

definition step_7_gen_cr_data ::
  "('d::linorder) extraction \<Rightarrow> candidate list list
     \<Rightarrow> (nat \<times> 'd cr_entry list) list \<times> log_record list \<times> error option" where
  "step_7_gen_cr_data ex inputs = step_7_loop ex 0 inputs [] []"

text \<open>
  An example: dates are the strings \<open>YYYY.MM.DD\<close> that the next stage parses, ordered as
  Python orders strings. The page of the second candidate does not parse, the third
  candidate has a low ratio, the fourth is blacklisted; the annotation \<open>hit 5\<close> carries
  no date and the dates of \<open>hit 6\<close> cannot be normalised.
\<close>

definition ex_extraction :: "string extraction" where
  "ex_extraction =
     \<lparr>blacklist_contains = (\<lambda>x. x = PStr ''http://spam.example/x''),
      parse_article = (\<lambda>u h. case h of
                          None \<Rightarrow> Inl (Raised ''no html'')
                        | Some page \<Rightarrow> if page = ''<broken''
                                         then Inl (Raised ''malformed'')
                                         else Inr \<lparr>article_text = map of_char page,
                                                   article_rest = u\<rparr>),
      extract_titles = (\<lambda>a. Inr [article_text a]),
      extract_sources = (\<lambda>g. Inr [map of_char (annotation g)]),
      extract_dates = (\<lambda>g. if annotation g = ''hit 5'' then Inr []
                            else if annotation g = ''hit 6'' then Inr [''yesterday'']
                            else Inr [''2020.05.02'', ''2020.03.11'', ''2020.04.01'']),
      normalize_dates = (\<lambda>raw. if ''yesterday'' \<in> set raw
                                then Inl (Raised ''cannot normalize'') else Inr raw),
      extract_authors = (\<lambda>a g. Inr []),
      normalize_authors = (\<lambda>raw a. Inr []),
      lower = (\<lambda>s. s)\<rparr>"

definition ex_link_entry :: "string \<Rightarrow> string \<Rightarrow> bool \<Rightarrow> string \<Rightarrow> candidate" where
  "ex_link_entry u page high ann =
     \<lparr>url = map of_char u, segments = [map of_char ''first quote''],
      body = map of_char page, bestRatio = (if high then 0.62 else 0.2),
      foundMatches = [\<lparr>match = ''m'', ratio = (if high then 0.62 else 0.2)\<rparr>],
      highRatio = high,
      gseData = \<lparr>link = map of_char u, annotation = ann\<rparr>,
      html = Some page\<rparr>"

definition ex_link_entries :: "candidate list" where
  "ex_link_entries =
     [ex_link_entry ''http://a.example/1'' ''quoting page'' True ''hit 1'',
      ex_link_entry ''http://b.example/2'' ''<broken'' True ''hit 2'',
      ex_link_entry ''http://c.example/3'' ''other page'' False ''hit 3'',
      ex_link_entry ''http://spam.example/x'' ''quoting page'' True ''hit 2'',
      ex_link_entry ''http://d.example/4'' ''second quoting page'' True ''hit 4'']"

definition ex_cr_entry :: "int \<Rightarrow> string \<Rightarrow> string \<Rightarrow> string \<Rightarrow> string cr_entry" where
  "ex_cr_entry i u page ann =
     \<lparr>cr_id = i, cr_url = u, cr_text = map of_char page, cr_title = map of_char page,
      cr_sources = [map of_char ann], cr_pub_date = Some ''2020.03.11'', cr_authors = [],
      cr_body = page\<rparr>"

definition extracts :: "('d::linorder) extraction \<Rightarrow> candidate \<Rightarrow> bool" where
  \<comment> \<open>the round of this link entry appends an entry\<close>
  "extracts ex link_entry =
     (case process_link_entry ex 0 link_entry of Inr (Some entry, l) \<Rightarrow> True | _ \<Rightarrow> False)"


section \<open>\<open>step_8_find_cross_references\<close>: the graph of one origin\<close>

text \<open>
  One element of the checkpoint of the extraction stage as the stage reads it back; the
  key \<open>html\<close> is never written, so \<open>article_data.get("html")\<close> is \<open>None\<close>.
\<close>

record article_data =
  ad_id :: int
  ad_url :: unicode
  ad_text :: unicode
  ad_title :: unicode
  ad_sources :: "unicode list"
  ad_pub_date :: "unicode option"
  ad_authors :: "unicode list"
  ad_body :: unicode

type_synonym datetime = "int \<times> int \<times> int"

record reference_entry =
  ref_id :: int
  ref_url :: unicode
  ref_html :: "string option"
  ref_text :: unicode
  ref_title :: unicode
  ref_sources :: "unicode list"
  ref_pub_date :: "datetime option"
  ref_authors :: "unicode list"
  ref_body :: string

text \<open>
  Taken as parameters: \<open>strptime\<close> and \<open>strftime\<close> with the format \<open>%Y.%m.%d\<close>, of which the
  first raises on a string of another form, and \<open>find_cross_references\<close> of the index,
  which is given the entries of the index and the window size and returns the pairs of
  ids it links.
\<close>

record reference_index =
  strptime :: "unicode \<Rightarrow> error + datetime"
  strftime :: "datetime \<Rightarrow> string"
  find_cross_references :: "reference_entry list \<Rightarrow> nat \<Rightarrow> (int \<times> int) list"

definition read_ref_entry :: "reference_index \<Rightarrow> article_data \<Rightarrow> error + reference_entry" where
  "read_ref_entry ri a =
     (case (case ad_pub_date a of
              None \<Rightarrow> Inr None
            | Some date_str \<Rightarrow>
                if date_str = [] then Inr None
                else (case strptime ri date_str of Inl e \<Rightarrow> Inl e | Inr t \<Rightarrow> Inr (Some t))) of
        Inl e \<Rightarrow> Inl e
      | Inr pd \<Rightarrow>
          Inr \<lparr>ref_id = ad_id a, ref_url = ad_url a, ref_html = None, ref_text = ad_text a,
               ref_title = ad_title a, ref_sources = ad_sources a, ref_pub_date = pd,
               ref_authors = ad_authors a, ref_body = utf8_encode (ad_body a)\<rparr>)"

fun read_entries :: "reference_index \<Rightarrow> article_data list \<Rightarrow> error + reference_entry list" where
  "read_entries ri [] = Inr []"
| "read_entries ri (a # articles) =
     (case read_ref_entry ri a of
        Inl e \<Rightarrow> Inl e
      | Inr entry \<Rightarrow>
          (case read_entries ri articles of
             Inl e \<Rightarrow> Inl e
           | Inr entries \<Rightarrow> Inr (entry # entries)))"

text \<open>
  Modelled from the spec: \<open>ReferenceIndex.iterentries\<close>, which is not in the sources. The
  index is the in-memory collection of the entries of one origin, and iterating it yields
  the entries it was built from.
\<close>

definition iterentries :: "reference_entry list \<Rightarrow> reference_entry list" where
  "iterentries ref_index = ref_index"

record graph_node =
  refId :: int
  node_url :: unicode
  node_text :: unicode
  node_title :: unicode
  node_sources :: "unicode list"
  pubDate :: "string option"
  node_authors :: "unicode list"
  node_body :: string

record graph =
  nodes :: "(int \<times> graph_node) list"
  edges :: "(int \<times> int) list"

definition node_of :: "reference_index \<Rightarrow> reference_entry \<Rightarrow> graph_node" where
  "node_of ri entry =
     \<lparr>refId = ref_id entry, node_url = ref_url entry, node_text = ref_text entry,
      node_title = ref_title entry, node_sources = ref_sources entry,
      pubDate = (case ref_pub_date entry of None \<Rightarrow> None | Some t \<Rightarrow> Some (strftime ri t)),
      node_authors = ref_authors entry, node_body = ref_body entry\<rparr>"

text \<open>
  The round of one origin. \<open>graph_edges\<close> takes every pair of \<open>found_links\<close> in turn, as
  it comes; \<open>graph_nodes[entry.ref_id] = ...\<close> stores the node under the id of the entry,
  in place of a node stored under the same id before.
\<close>

definition step_8_origin :: "reference_index \<Rightarrow> article_data list \<Rightarrow> error + graph" where
  "step_8_origin ri articles =
     (case read_entries ri articles of
        Inl e \<Rightarrow> Inl e
      | Inr ref_index \<Rightarrow>
          let found_links = find_cross_references ri (iterentries ref_index) 3;
              graph_edges = fold (\<lambda>pair es. es @ [pair]) found_links [];
              graph_nodes = fold (\<lambda>entry ns. AList.update (ref_id entry) (node_of ri entry) ns)
                              (iterentries ref_index) []
          in Inr \<lparr>nodes = graph_nodes, edges = graph_edges\<rparr>)"

text \<open>
  What the claim asks of the collaborator: every link is a pair of two different ids of
  indexed entries.
\<close>

definition links_well_formed :: "int set \<Rightarrow> (int \<times> int) list \<Rightarrow> bool" where
  "links_well_formed ids links = list_all (\<lambda>(a, b). a \<noteq> b \<and> a \<in> ids \<and> b \<in> ids) links"

text \<open>
  An example: the two entries of the example of the extraction stage, of which the second
  carries no date, and an index that links them; and an index that links nothing.
\<close>

definition ex_article_data :: "int \<Rightarrow> string \<Rightarrow> string \<Rightarrow> string \<Rightarrow> article_data" where
  "ex_article_data i u page d =
     \<lparr>ad_id = i, ad_url = map of_char u, ad_text = map of_char page,
      ad_title = map of_char page, ad_sources = [], 
      ad_pub_date = (if d = [] then None else Some (map of_char d)),
      ad_authors = [], ad_body = map of_char page\<rparr>"

definition ex_articles :: "article_data list" where
  "ex_articles =
     [ex_article_data 1 ''http://a.example/1'' ''quoting page'' ''2020.03.11'',
      ex_article_data 2 ''http://d.example/4'' ''second quoting page'' '''']"

definition ex_reference_index :: "(int \<times> int) list \<Rightarrow> reference_index" where
  "ex_reference_index links =
     \<lparr>strptime = (\<lambda>s. if s = map of_char ''2020.03.11'' then Inr (2020, 3, 11)
                       else Inl (Raised ''does not match format'')),
      strftime = (\<lambda>t. ''2020.03.11''),
      find_cross_references = (\<lambda>entries w. links)\<rparr>"

section \<open>Properties of \<open>truecase\<close>\<close>

lemma truecase_step_eq:
  "truecase_step r i h = h[r := (h ! r)[i := truecase_token (h ! r ! i)]]"
  by (auto simp: truecase_step_def truecase_token_def)

lemma upd_take_drop:
  "n < length xs \<Longrightarrow>
   (map g (take n xs) @ drop n xs)[n := g (xs ! n)] = map g (take (Suc n) xs) @ drop (Suc n) xs"
  by (simp add: take_Suc_conv_app_nth list_update_append flip: Cons_nth_drop_Suc)

text \<open>After \<open>n\<close> rounds of the loop the first \<open>n\<close> tokens are done and the rest untouched.\<close>

lemma truecase_fold:
  "r < length h \<Longrightarrow> n \<le> length (h ! r) \<Longrightarrow>
   fold (truecase_step r) [0..<n] h = h[r := map truecase_token (take n (h ! r)) @ drop n (h ! r)]"
proof (induction n)
  case 0
  then show ?case by simp
next
  case (Suc n)
  then have n: "n < length (h ! r)" by simp
  let ?L = "map truecase_token (take n (h ! r)) @ drop n (h ! r)"
  have Ln: "?L ! n = h ! r ! n"
    using n by (simp add: nth_append)
  have "fold (truecase_step r) [0..<Suc n] h = truecase_step r n (h[r := ?L])"
    using Suc by simp
  also have "\<dots> = h[r := ?L[n := truecase_token (h ! r ! n)]]"
    using Suc.prems(1) Ln by (simp add: truecase_step_eq)
  also have "?L[n := truecase_token (h ! r ! n)] =
      map truecase_token (take (Suc n) (h ! r)) @ drop (Suc n) (h ! r)"
    using n by (rule upd_take_drop)
  finally show ?case .
qed

lemma truecase_result:
  "tokens < length h \<Longrightarrow>
   truecase h tokens = Some (h @ [map truecase_token (h ! tokens)], length h)"
  using truecase_fold [of "length h" "h @ [h ! tokens]" "length (h ! tokens)"]
  by (simp add: truecase_def Let_def nth_append)

text \<open>
  Claim C10. For every list of tokens, \<open>truecase\<close> returns a new list object (a reference
  that was not allocated before) of the same length and leaves every object that existed
  before the call, the argument included, as it was. The token at position \<open>i\<close> of the
  result is the title-cased token exactly when the token is longer than 3, does not start
  with \<open>@\<close> and is upper case in the sense of \<open>str.isupper\<close>; otherwise it is the token
  itself.
\<close>

theorem truecase_new_list:
  assumes "tokens < length h"
  shows "\<exists>h' r. truecase h tokens = Some (h', r)
           \<and> length h \<le> r \<and> r < length h'
           \<and> take (length h) h' = h
           \<and> length (h' ! r) = length (h ! tokens)
           \<and> (\<forall>i < length (h ! tokens).
                 h' ! r ! i =
                   (if 3 < length (h ! tokens ! i) \<and> hd (h ! tokens ! i) \<noteq> CHR ''@''
                       \<and> isupper (h ! tokens ! i)
                    then title (h ! tokens ! i) else h ! tokens ! i))"
  using assms by (simp add: truecase_result truecase_token_def)

theorem truecase_new_list_witness:
  "(0::nat) < length [[''NASA'', ''@CNN'', ''the'', ''Hello'']]
   \<and> (\<exists>h' r. truecase [[''NASA'', ''@CNN'', ''the'', ''Hello'']] 0 = Some (h', r)
           \<and> length [[''NASA'', ''@CNN'', ''the'', ''Hello'']] \<le> r \<and> r < length h'
           \<and> take (length [[''NASA'', ''@CNN'', ''the'', ''Hello'']]) h'
               = [[''NASA'', ''@CNN'', ''the'', ''Hello'']]
           \<and> h' ! r = [''Nasa'', ''@CNN'', ''the'', ''Hello''])"
proof -
  let ?h = "[[''NASA'', ''@CNN'', ''the'', ''Hello'']]"
  have h: "(0::nat) < length ?h" by simp
  from truecase_new_list [OF h] obtain h' r where
    tc: "truecase ?h 0 = Some (h', r)" and
    fresh: "length ?h \<le> r" "r < length h'" and
    kept: "take (length ?h) h' = ?h"
    by blast
  have ev: "truecase ?h 0 = Some (?h @ [[''Nasa'', ''@CNN'', ''the'', ''Hello'']], 1)"
    by code_simp
  from tc ev have "h' ! r = [''Nasa'', ''@CNN'', ''the'', ''Hello'']" by auto
  with h tc fresh kept show ?thesis by blast
qed


section \<open>Properties of the codecs\<close>

text \<open>
  Decoding what the encoder wrote for one code point gives the code point back. The
  arithmetic is done on the digits of the code point in base 64.
\<close>

lemma of_char_char_of_small: "n < 256 \<Longrightarrow> of_char (char_of n) = (n::nat)"
  by simp

lemma mod_high: "r < m \<Longrightarrow> (k * m + r) mod m = (r::nat)"
  by simp

lemma split2: "(ch::nat) = (ch div 64) * 64 + ch mod 64"
  by simp

lemma join3: "a = A * 64 + r \<Longrightarrow> A = p * 64 + q \<Longrightarrow> a = p * 4096 + q * 64 + (r::nat)"
  by simp

lemma split3: "(ch::nat) = (ch div 4096) * 4096 + ((ch div 64) mod 64) * 64 + ch mod 64"
proof -
  have "ch div 64 = (ch div 64 div 64) * 64 + (ch div 64) mod 64" by simp
  moreover have "ch div 64 div 64 = ch div 4096" by (simp add: div_mult2_eq)
  ultimately show ?thesis using join3 [OF split2 [of ch]] by simp
qed

lemma join4: "a = P * 4096 + q * 64 + r \<Longrightarrow> P = t * 64 + p
   \<Longrightarrow> a = t * 262144 + p * 4096 + q * 64 + (r::nat)"
  by simp

lemma split4: "(ch::nat) = (ch div 262144) * 262144 + ((ch div 4096) mod 64) * 4096
    + ((ch div 64) mod 64) * 64 + ch mod 64"
proof -
  have "ch div 4096 = (ch div 4096 div 64) * 64 + (ch div 4096) mod 64" by simp
  moreover have "ch div 4096 div 64 = ch div 262144" by (simp add: div_mult2_eq)
  ultimately show ?thesis using join4 [OF split3 [of ch]] by simp
qed

lemma dec1: "ch < 128 \<Longrightarrow> utf8_decode (char_of ch # s) = map_option ((#) ch) (utf8_decode s)"
  by simp

lemma dec2:
  assumes "128 \<le> ch" "ch < 2048"
  shows "utf8_decode (enc2 ch @ s) = map_option ((#) ch) (utf8_decode s)"
proof -
  define q where "q = ch div 64"
  define r where "r = ch mod 64"
  have ch: "ch = q * 64 + r"
    unfolding q_def r_def by (rule split2)
  have r: "r < 64"
    by (simp add: r_def)
  have q: "2 \<le> q" "q < 32"
    using assms ch r by linarith+
  have b0: "(of_char (char_of (192 + q)) :: nat) = 192 + q"
    using q by (intro of_char_char_of_small) simp
  have b1: "(of_char (char_of (128 + r)) :: nat) = 128 + r"
    using r by (intro of_char_char_of_small) simp
  have m0: "(192 + q) mod 32 = q" using mod_high [of q 32 6] q by simp
  have m1: "(128 + r) mod 64 = r" using mod_high [of r 64 2] r by simp
  have e: "enc2 ch = [char_of (192 + q), char_of (128 + r)]"
    by (simp add: enc2_def q_def r_def)
  have "utf8_decode (char_of (192 + q) # char_of (128 + r) # s)
         = map_option ((#) (q * 64 + r)) (utf8_decode s)"
    using q r by (simp add: b0 b1 m0 m1 is_cont_def del: of_char_of)
  then show ?thesis
    by (simp only: e append_Cons append_Nil flip: ch)
qed


lemma dec3:
  assumes "2048 \<le> ch" "ch < 65536"
  shows "utf8_decode (enc3 ch @ s) = map_option ((#) ch) (utf8_decode s)"
proof -
  define p where "p = ch div 4096"
  define q where "q = (ch div 64) mod 64"
  define r where "r = ch mod 64"
  have ch: "ch = p * 4096 + q * 64 + r"
    unfolding p_def q_def r_def by (rule split3)
  have r: "r < 64" and q: "q < 64"
    by (simp_all add: r_def q_def)
  have p: "p < 16" "p = 0 \<longrightarrow> 32 \<le> q"
    using assms ch r q by linarith+
  have b0: "(of_char (char_of (224 + p)) :: nat) = 224 + p"
    using p by (intro of_char_char_of_small) simp
  have b1: "(of_char (char_of (128 + q)) :: nat) = 128 + q"
    using q by (intro of_char_char_of_small) simp
  have b2: "(of_char (char_of (128 + r)) :: nat) = 128 + r"
    using r by (intro of_char_char_of_small) simp
  have m0: "(224 + p) mod 16 = p" using mod_high [of p 16 14] p by simp
  have m1: "(128 + q) mod 64 = q" using mod_high [of q 64 2] q by simp
  have m2: "(128 + r) mod 64 = r" using mod_high [of r 64 2] r by simp
  have e: "enc3 ch = [char_of (224 + p), char_of (128 + q), char_of (128 + r)]"
    by (simp add: enc3_def p_def q_def r_def)
  have "utf8_decode (char_of (224 + p) # char_of (128 + q) # char_of (128 + r) # s)
         = map_option ((#) (p * 4096 + q * 64 + r)) (utf8_decode s)"
    using p q r by (auto simp add: b0 b1 b2 m0 m1 m2 is_cont_def simp del: of_char_of)
  then show ?thesis
    by (simp only: e append_Cons append_Nil flip: ch)
qed

lemma dec4:
  assumes "65536 \<le> ch" "ch < 1114112"
  shows "utf8_decode (enc4 ch @ s) = map_option ((#) ch) (utf8_decode s)"
proof -
  define t where "t = ch div 262144"
  define p where "p = (ch div 4096) mod 64"
  define q where "q = (ch div 64) mod 64"
  define r where "r = ch mod 64"
  have ch: "ch = t * 262144 + p * 4096 + q * 64 + r"
    unfolding t_def p_def q_def r_def by (rule split4)
  have r: "r < 64" and q: "q < 64" and p: "p < 64"
    by (simp_all add: r_def q_def p_def)
  have t: "t < 5" "t = 0 \<longrightarrow> 16 \<le> p" "t = 4 \<longrightarrow> p < 16"
    using assms ch r q p by linarith+
  have b0: "(of_char (char_of (240 + t)) :: nat) = 240 + t"
    using t by (intro of_char_char_of_small) simp
  have b1: "(of_char (char_of (128 + p)) :: nat) = 128 + p"
    using p by (intro of_char_char_of_small) simp
  have b2: "(of_char (char_of (128 + q)) :: nat) = 128 + q"
    using q by (intro of_char_char_of_small) simp
  have b3: "(of_char (char_of (128 + r)) :: nat) = 128 + r"
    using r by (intro of_char_char_of_small) simp
  have m0: "(240 + t) mod 8 = t" using mod_high [of t 8 30] t by simp
  have m1: "(128 + p) mod 64 = p" using mod_high [of p 64 2] p by simp
  have m2: "(128 + q) mod 64 = q" using mod_high [of q 64 2] q by simp
  have m3: "(128 + r) mod 64 = r" using mod_high [of r 64 2] r by simp
  have e: "enc4 ch = [char_of (240 + t), char_of (128 + p), char_of (128 + q), char_of (128 + r)]"
    by (simp add: enc4_def t_def p_def q_def r_def)
  have "utf8_decode (char_of (240 + t) # char_of (128 + p) # char_of (128 + q) # char_of (128 + r) # s)
         = map_option ((#) (t * 262144 + p * 4096 + q * 64 + r)) (utf8_decode s)"
    using t p q r by (auto simp add: b0 b1 b2 b3 m0 m1 m2 m3 is_cont_def simp del: of_char_of)
  then show ?thesis
    by (simp only: e append_Cons append_Nil flip: ch)
qed

lemma surrogate_pair_range:
  assumes "55296 \<le> ch" "ch \<le> 56319" "56320 \<le> ch2" "ch2 \<le> (57343::nat)"
  shows "65536 \<le> (ch - 55296) * 1024 + (ch2 - 56320) + 65536"
    and "(ch - 55296) * 1024 + (ch2 - 56320) + 65536 < 1114112"
  using assms by linarith+

lemma valid1: "(ch::nat) < 128 \<Longrightarrow> utf8_valid s \<Longrightarrow> utf8_valid (char_of ch # s)"
  by (simp add: utf8_valid_def)

lemma valid2: "128 \<le> ch \<Longrightarrow> ch < 2048 \<Longrightarrow> utf8_valid s \<Longrightarrow> utf8_valid (enc2 ch @ s)"
  by (simp add: utf8_valid_def dec2)

lemma valid3: "2048 \<le> ch \<Longrightarrow> ch < 65536 \<Longrightarrow> utf8_valid s \<Longrightarrow> utf8_valid (enc3 ch @ s)"
  by (simp add: utf8_valid_def dec3)

lemma valid4: "65536 \<le> ch \<Longrightarrow> ch < 1114112 \<Longrightarrow> utf8_valid s \<Longrightarrow> utf8_valid (enc4 ch @ s)"
  by (simp add: utf8_valid_def dec4)

lemma utf8_encode_valid:
  "list_all (\<lambda>ch. ch < 1114112) u \<Longrightarrow> utf8_valid (utf8_encode u)"
proof (induction u rule: utf8_encode.induct)
  case 1
  then show ?case by (simp add: utf8_valid_def)
next
  case (2 ch s)
  consider (a) "ch < 128" | (b) "128 \<le> ch" "ch < 2048"
    | (c) "2048 \<le> ch" "ch < 65536" | (d) "65536 \<le> ch"
    by linarith
  then show ?case
  proof cases
    case a
    with 2 show ?thesis by (simp add: valid1)
  next
    case b
    with 2 show ?thesis by (simp add: valid2)
  next
    case c
    show ?thesis
    proof (cases s)
      case Nil
      with c show ?thesis using valid3 [of ch "[]"] by (simp add: utf8_valid_def)
    next
      case (Cons ch2 s')
      show ?thesis
      proof (cases "55296 \<le> ch \<and> ch \<le> 56319 \<and> 56320 \<le> ch2 \<and> ch2 \<le> 57343")
        case True
        then have "utf8_valid (enc4 ((ch - 55296) * 1024 + (ch2 - 56320) + 65536) @ utf8_encode s')"
          using 2 c Cons by (intro valid4 surrogate_pair_range) simp_all
        with True c Cons show ?thesis by simp
      next
        case False
        then have "utf8_valid (enc3 ch @ utf8_encode s)"
          using 2 c Cons by (intro valid3) auto
        with False c Cons show ?thesis by auto
      qed
    qed
  next
    case d
    with 2 show ?thesis by (simp add: valid4)
  qed
qed



section \<open>Properties of \<open>to_utf_8_dict\<close>\<close>

lemma update_set_subset: "set (AList.update k v al) \<subseteq> insert (k, v) (set al)"
  by (induction al) auto

lemma update_fresh: "k \<notin> fst ` set al \<Longrightarrow> AList.update k v al = al @ [(k, v)]"
  by (induction al) auto

lemma fold_update_distinct:
  "distinct (map fst d) \<Longrightarrow> distinct (map fst (fold (\<lambda>(k, v) d. AList.update k v d) ps d))"
  by (induction ps arbitrary: d) (auto simp: distinct_update)

lemma fold_update_subset:
  "set (fold (\<lambda>(k, v) d. AList.update k v d) ps d) \<subseteq> set ps \<union> set d"
proof (induction ps arbitrary: d)
  case Nil
  then show ?case by simp
next
  case (Cons p ps)
  obtain k v where p: "p = (k, v)" by (cases p)
  have "set (fold (\<lambda>(k, v) d. AList.update k v d) ps (AList.update k v d))
          \<subseteq> set ps \<union> set (AList.update k v d)"
    by (rule Cons.IH)
  also have "\<dots> \<subseteq> set ps \<union> insert (k, v) (set d)"
    using update_set_subset [of k v d] by blast
  finally show ?case by (auto simp: p)
qed

lemma fold_update_id:
  "distinct (map fst (d @ ps)) \<Longrightarrow> fold (\<lambda>(k, v) d. AList.update k v d) ps d = d @ ps"
proof (induction ps arbitrary: d)
  case Nil
  then show ?case by simp
next
  case (Cons p ps)
  obtain k v where p: "p = (k, v)" by (cases p)
  have fresh: "k \<notin> fst ` set d" using Cons.prems by (auto simp: p)
  have "distinct (map fst ((d @ [(k, v)]) @ ps))" using Cons.prems by (simp add: p)
  from Cons.IH [OF this] show ?case by (simp add: p update_fresh [OF fresh])
qed

lemma dict_of_distinct: "distinct (map fst (dict_of ps))"
  unfolding dict_of_def by (rule fold_update_distinct) simp

lemma dict_of_subset: "set (dict_of ps) \<subseteq> set ps"
  unfolding dict_of_def using fold_update_subset [of ps "[]"] by simp

lemma dict_of_id: "distinct (map fst ps) \<Longrightarrow> dict_of ps = ps"
  unfolding dict_of_def using fold_update_id [of "[]" ps] by simp

lemma latin1_roundtrip: "utf8_decode (utf8_encode (latin1_decode s)) = Some (latin1_decode s)"
proof (induction s)
  case Nil
  then show ?case by (simp add: latin1_decode_def)
next
  case (Cons c s)
  have lt: "(of_char c :: nat) < 2048"
    using nat_of_char_less_256 [of c] by linarith
  show ?case
  proof (cases "(of_char c :: nat) < 128")
    case True
    then show ?thesis using Cons by (simp add: latin1_decode_def)
  next
    case False
    then have "utf8_encode (latin1_decode (c # s)) = enc2 (of_char c) @ utf8_encode (latin1_decode s)"
      using lt by (simp add: latin1_decode_def)
    moreover have "utf8_decode (enc2 (of_char c) @ utf8_encode (latin1_decode s))
        = map_option ((#) (of_char c)) (utf8_decode (utf8_encode (latin1_decode s)))"
      using False lt by (intro dec2) simp_all
    ultimately show ?thesis using Cons by (simp add: latin1_decode_def)
  qed
qed

lemma to_utf_8_dict_clean: "code_points_ok v \<Longrightarrow> utf8_clean (to_utf_8_dict v)"
proof (induction v rule: to_utf_8_dict.induct)
  case (1 u)
  then show ?case by (simp add: utf8_encode_valid)
next
  case (2 s)
  then show ?case
    by (simp add: utf8_valid_def latin1_roundtrip split: option.splits)
next
  case (3 items)
  let ?F = "\<lambda>(k, v). (to_utf_8_dict k, to_utf_8_dict v)"
  have "utf8_clean k' \<and> utf8_clean v'" if "(k', v') \<in> set (dict_of (map ?F items))" for k' v'
  proof -
    from that dict_of_subset have "(k', v') \<in> set (map ?F items)" by blast
    then obtain k v where kv: "(k, v) \<in> set items" "k' = to_utf_8_dict k" "v' = to_utf_8_dict v"
      by auto
    moreover from kv(1) "3.prems" have "code_points_ok k" "code_points_ok v"
      by (auto simp: list_all_iff)
    ultimately show ?thesis using "3.IH" by blast
  qed
  then show ?case
    by (auto simp: dict_of_distinct list_all_iff)
next
  case (4 xs)
  then show ?case by (auto simp: list_all_iff)
next
  case (5 xs)
  then show ?case by (auto simp: list_all_iff)
qed simp_all

lemma to_utf_8_dict_fixes_clean: "utf8_clean v \<Longrightarrow> to_utf_8_dict v = v"
proof (induction v rule: to_utf_8_dict.induct)
  case (2 s)
  then show ?case by (auto simp: utf8_valid_def split: option.splits)
next
  case (3 items)
  have "map (\<lambda>(k, v). (to_utf_8_dict k, to_utf_8_dict v)) items = items"
    using 3 by (intro map_idI) (auto simp: list_all_iff)
  with 3 show ?case by (simp add: dict_of_id)
next
  case (4 xs)
  then show ?case by (auto simp: list_all_iff intro: map_idI)
next
  case (5 xs)
  then show ?case by (auto simp: list_all_iff intro: map_idI)
qed simp_all


text \<open>
  Claim C8. \<open>json_dump\<close> serialises \<open>to_utf_8_dict(obj)\<close>, never \<open>obj\<close> itself. A byte
  string that decodes as UTF-8 is kept; one that does not is decoded as latin-1 and encoded
  as UTF-8; either way the result is a UTF-8 byte string that stands for the text the
  input stands for under "UTF-8 first, latin-1 otherwise". A unicode string is encoded as
  UTF-8. Lists and tuples are converted element by element, dicts key by key and value by
  value, and the other leaves are returned as they are. As a result every string in the
  converted value, at any depth, is a UTF-8 byte string.
\<close>

theorem to_utf_8_dict_converts:
  assumes "code_points_ok v"
  shows "json_dump dumps obj fp = fp @ dumps (to_utf_8_dict obj)
       \<and> to_utf_8_dict (PStr s) = PStr (if utf8_valid s then s else utf8_encode (latin1_decode s))
       \<and> (\<exists>s'. to_utf_8_dict (PStr s) = PStr s' \<and> utf8_decode s' = Some (decode_text s))
       \<and> to_utf_8_dict (PUnicode u) = PStr (utf8_encode u)
       \<and> to_utf_8_dict (PList xs) = PList (map to_utf_8_dict xs)
       \<and> to_utf_8_dict (PTuple xs) = PTuple (map to_utf_8_dict xs)
       \<and> to_utf_8_dict (PDict items)
            = PDict (dict_of (map (\<lambda>(k, x). (to_utf_8_dict k, to_utf_8_dict x)) items))
       \<and> to_utf_8_dict (PInt i) = PInt i
       \<and> to_utf_8_dict PNone = PNone
       \<and> utf8_clean (to_utf_8_dict v)"
proof -
  have "\<exists>s'. to_utf_8_dict (PStr s) = PStr s' \<and> utf8_decode s' = Some (decode_text s)"
    by (cases "utf8_decode s") (simp_all add: decode_text_def latin1_roundtrip)
  moreover have "to_utf_8_dict (PStr s)
      = PStr (if utf8_valid s then s else utf8_encode (latin1_decode s))"
    by (cases "utf8_decode s") (simp_all add: utf8_valid_def)
  moreover have "utf8_clean (to_utf_8_dict v)"
    using assms by (rule to_utf_8_dict_clean)
  ultimately show ?thesis
    by (simp add: json_dump_def)
qed

theorem to_utf_8_dict_converts_witness:
  "code_points_ok (PDict [(PUnicode [233], PList [PStr [CHR 0xE9], PInt 3])])
   \<and> to_utf_8_dict (PStr [CHR 0xE9]) = PStr [CHR 0xC3, CHR 0xA9]
   \<and> to_utf_8_dict (PStr [CHR 0xC3, CHR 0xA9]) = PStr [CHR 0xC3, CHR 0xA9]
   \<and> utf8_clean (to_utf_8_dict (PDict [(PUnicode [233], PList [PStr [CHR 0xE9], PInt 3])]))"
proof -
  let ?v = "PDict [(PUnicode [233], PList [PStr [CHR 0xE9], PInt 3])]"
  have h: "code_points_ok ?v" by simp
  note t = to_utf_8_dict_converts [OF h]
  have a: "\<not> utf8_valid [CHR 0xE9]" by (simp add: utf8_valid_def)
  have b: "utf8_valid [CHR 0xC3, CHR 0xA9]" by (simp add: utf8_valid_def is_cont_def)
  have c: "utf8_encode (latin1_decode [CHR 0xE9]) = [CHR 0xC3, CHR 0xA9]"
    by code_simp
  from t [where s = "[CHR 0xE9]"] a c
  have 1: "to_utf_8_dict (PStr [CHR 0xE9]) = PStr [CHR 0xC3, CHR 0xA9]"
    by (simp only: if_False)
  from t [where s = "[CHR 0xC3, CHR 0xA9]"] b
  have 2: "to_utf_8_dict (PStr [CHR 0xC3, CHR 0xA9]) = PStr [CHR 0xC3, CHR 0xA9]"
    by (simp only: if_True)
  from t have 3: "utf8_clean (to_utf_8_dict ?v)" by blast
  from h 1 2 3 show ?thesis by blast
qed

text \<open>
  Claim C9. \<open>to_utf_8_dict\<close> is idempotent: on every value built from byte strings,
  unicode strings, lists, tuples, dicts and other leaves, applying it twice gives what
  applying it once gives. (The result of the first application is clean, and a clean
  value is returned as it is, in whatever order its dicts are iterated.)
\<close>

theorem to_utf_8_dict_idempotent:
  "code_points_ok v \<Longrightarrow> to_utf_8_dict (to_utf_8_dict v) = to_utf_8_dict v"
  by (intro to_utf_8_dict_fixes_clean to_utf_8_dict_clean)

theorem to_utf_8_dict_idempotent_witness:
  "code_points_ok (PDict [(PUnicode [233, 8364], PList [PStr [CHR 0xE9], PInt 3]),
                          (PStr [CHR 0xC3, CHR 0xA9, CHR 0xE2, CHR 0x82, CHR 0xAC], PNone)])
   \<and> to_utf_8_dict (to_utf_8_dict
         (PDict [(PUnicode [233, 8364], PList [PStr [CHR 0xE9], PInt 3]),
                 (PStr [CHR 0xC3, CHR 0xA9, CHR 0xE2, CHR 0x82, CHR 0xAC], PNone)]))
     = to_utf_8_dict
         (PDict [(PUnicode [233, 8364], PList [PStr [CHR 0xE9], PInt 3]),
                 (PStr [CHR 0xC3, CHR 0xA9, CHR 0xE2, CHR 0x82, CHR 0xAC], PNone)])"
proof -
  let ?v = "PDict [(PUnicode [233, 8364], PList [PStr [CHR 0xE9], PInt 3]),
                   (PStr [CHR 0xC3, CHR 0xA9, CHR 0xE2, CHR 0x82, CHR 0xAC], PNone)]"
  have h: "code_points_ok ?v" by simp
  from h to_utf_8_dict_idempotent [OF h] show ?thesis by (rule conjI)
qed


section \<open>Properties of the verification stage\<close>

text \<open>
  The two nested loops of the discovery do to the three dicts what a single loop over the
  hits that pass the blacklist test does.
\<close>

lemma add_found_item_eq:
  "add_found_item tu s it d =
     (if in_blacklist tu (PUnicode (link it)) then d else add_hit (s, it) d)"
  by (simp add: add_found_item_def add_hit_def Let_def split: option.split)

lemma fold_add_found_item:
  "fold (add_found_item tu s) items d =
     fold add_hit (map (Pair s) (filter (\<lambda>it. \<not> in_blacklist tu (PUnicode (link it))) items)) d"
  by (induction items arbitrary: d) (simp_all add: add_found_item_eq)

lemma add_hit_uniq [simp]:
  "add_hit h (d\<lparr>uniq_segments := x\<rparr>) = (add_hit h d)\<lparr>uniq_segments := x\<rparr>"
  by (simp add: add_hit_def split: option.split)

lemma fold_add_hit_uniq:
  "fold add_hit hs (d\<lparr>uniq_segments := x\<rparr>) = (fold add_hit hs d)\<lparr>uniq_segments := x\<rparr>"
  by (induction hs arbitrary: d) simp_all

lemma fold_add_hit_more:
  "related_url2gse (fold add_hit hs (d\<lparr>uniq_segments := x\<rparr>)) = related_url2gse (fold add_hit hs d)"
  "related_url2segm (fold add_hit hs (d\<lparr>uniq_segments := x\<rparr>)) = related_url2segm (fold add_hit hs d)"
  "related_url2html (fold add_hit hs (d\<lparr>uniq_segments := x\<rparr>)) = related_url2html (fold add_hit hs d)"
  by (simp_all add: fold_add_hit_uniq)

lemma fold_add_hit_cong:
  "related_url2gse d = related_url2gse d' \<Longrightarrow> related_url2segm d = related_url2segm d'
   \<Longrightarrow> related_url2html d = related_url2html d'
   \<Longrightarrow> related_url2gse (fold add_hit hs d) = related_url2gse (fold add_hit hs d')
     \<and> related_url2segm (fold add_hit hs d) = related_url2segm (fold add_hit hs d')
     \<and> related_url2html (fold add_hit hs d) = related_url2html (fold add_hit hs d')"
proof (induction hs arbitrary: d d')
  case Nil
  then show ?case by simp
next
  case (Cons h hs)
  show ?case
    unfolding fold_simps
    by (rule Cons.IH) (simp_all add: add_hit_def Cons.prems split: option.split)
qed

lemma discover_fold_hits:
  "related_url2gse (fold (add_segment_entry tu) gse d)
      = related_url2gse (fold add_hit (hits tu gse) d)
   \<and> related_url2segm (fold (add_segment_entry tu) gse d)
      = related_url2segm (fold add_hit (hits tu gse) d)
   \<and> related_url2html (fold (add_segment_entry tu) gse d)
      = related_url2html (fold add_hit (hits tu gse) d)"
proof (induction gse arbitrary: d)
  case Nil
  then show ?case by (simp add: hits_def)
next
  case (Cons e gse)
  let ?hs = "map (Pair (simplified_text tu (segment e)))
               (filter (\<lambda>it. \<not> in_blacklist tu (PUnicode (link it))) (foundItems e))"
  let ?d1 = "add_segment_entry tu e d"
  have d1: "?d1 = (fold add_hit ?hs d)\<lparr>uniq_segments :=
               set_add (uniq_segments d) (simplified_text tu (segment e))\<rparr>"
    by (simp add: add_segment_entry_def Let_def fold_add_found_item fold_add_hit_uniq)
  have h: "hits tu (e # gse) = ?hs @ hits tu gse"
    by (simp add: hits_def)
  have "related_url2gse (fold add_hit (hits tu gse) ?d1)
          = related_url2gse (fold add_hit (hits tu gse) (fold add_hit ?hs d))
      \<and> related_url2segm (fold add_hit (hits tu gse) ?d1)
          = related_url2segm (fold add_hit (hits tu gse) (fold add_hit ?hs d))
      \<and> related_url2html (fold add_hit (hits tu gse) ?d1)
          = related_url2html (fold add_hit (hits tu gse) (fold add_hit ?hs d))"
    by (rule fold_add_hit_cong) (simp_all add: d1)
  with Cons.IH [of ?d1] show ?case
    by (simp add: h)
qed

lemma discover_hits:
  "related_url2gse (discover tu gse) = related_url2gse (fold add_hit (hits tu gse) empty_discovery)"
  "related_url2segm (discover tu gse) = related_url2segm (fold add_hit (hits tu gse) empty_discovery)"
  "related_url2html (discover tu gse) = related_url2html (fold add_hit (hits tu gse) empty_discovery)"
  using discover_fold_hits [of tu gse empty_discovery]
  by (simp_all add: discover_def empty_discovery_def)


lemma in_keys_iff: "k \<in> fst ` set d \<longleftrightarrow> map_of d k \<noteq> None"
  by (simp add: map_of_eq_None_iff)

lemma setdefault_keys:
  "map fst (setdefault k v d) = (if k \<in> set (map fst d) then map fst d else map fst d @ [k])"
  by (simp add: setdefault_def)

lemma map_of_setdefault:
  "map_of (setdefault k v d) u =
     (case map_of d u of Some x \<Rightarrow> Some x | None \<Rightarrow> if u = k then Some v else None)"
  by (auto simp: setdefault_def in_keys_iff map_of_append map_add_def split: option.splits)

lemma segm_step_keys:
  "map fst (segm_step h m) =
     (if link (snd h) \<in> set (map fst m) then map fst m else map fst m @ [link (snd h)])"
  by (auto simp: segm_step_def update_keys map_of_eq_None_iff split: option.splits
           dest: map_of_SomeD weak_map_of_SomeI)

lemma map_of_segm_step:
  "map_of (segm_step h m) u =
     (if u = link (snd h)
      then Some (case map_of m u of None \<Rightarrow> [fst h] | Some segs \<Rightarrow> set_add segs (fst h))
      else map_of m u)"
  by (auto simp: segm_step_def update_conv' map_of_append map_add_def split: option.splits)

lemma add_hit_fields:
  "related_url2gse (add_hit h d) = setdefault (link (snd h)) (snd h) (related_url2gse d)"
  "related_url2html (add_hit h d) = setdefault (link (snd h)) None (related_url2html d)"
  "related_url2segm (add_hit h d) = segm_step h (related_url2segm d)"
  by (simp_all add: add_hit_def segm_step_def)

lemma hits_keys:
  "map fst (related_url2html (fold add_hit hs empty_discovery))
      = map fst (related_url2gse (fold add_hit hs empty_discovery))
   \<and> map fst (related_url2segm (fold add_hit hs empty_discovery))
      = map fst (related_url2gse (fold add_hit hs empty_discovery))
   \<and> distinct (map fst (related_url2gse (fold add_hit hs empty_discovery)))
   \<and> set (map fst (related_url2gse (fold add_hit hs empty_discovery))) = link ` snd ` set hs"
proof (induction hs rule: rev_induct)
  case Nil
  then show ?case by (simp add: empty_discovery_def)
next
  case (snoc h hs)
  then show ?case
    by (simp add: add_hit_fields setdefault_keys segm_step_keys) auto
qed

lemma find_snoc:
  "find P (xs @ [x]) = (case find P xs of Some y \<Rightarrow> Some y | None \<Rightarrow> if P x then Some x else None)"
  by (induction xs) auto

lemma hits_first_annotation:
  "map_of (related_url2gse (fold add_hit hs empty_discovery)) u
     = find (\<lambda>it. link it = u) (map snd hs)"
proof (induction hs rule: rev_induct)
  case Nil
  then show ?case by (simp add: empty_discovery_def)
next
  case (snoc h hs)
  then show ?case
    by (auto simp: add_hit_fields map_of_setdefault find_snoc split: option.splits)
qed

lemma hits_segments:
  "map_option set (map_of (related_url2segm (fold add_hit hs empty_discovery)) u)
     = (if u \<in> link ` snd ` set hs
        then Some {s. \<exists>it. (s, it) \<in> set hs \<and> link it = u} else None)"
proof (induction hs rule: rev_induct)
  case Nil
  then show ?case by (simp add: empty_discovery_def)
next
  case (snoc h hs)
  show ?case
  proof (cases "u = link (snd h)")
    case True
    show ?thesis
    proof (cases "map_of (related_url2segm (fold add_hit hs empty_discovery)) u")
      case None
      with snoc have "u \<notin> link ` snd ` set hs" by (auto split: if_splits)
      then have "\<forall>(s, it) \<in> set hs. link it \<noteq> u" by force
      then have "{s. \<exists>it. (s, it) \<in> set (hs @ [h]) \<and> link it = u} = {fst h}"
        using True by (cases h) auto
      with None True show ?thesis
        by (simp add: add_hit_fields map_of_segm_step)
    next
      case (Some segs)
      with snoc have "u \<in> link ` snd ` set hs"
        and segs: "set segs = {s. \<exists>it. (s, it) \<in> set hs \<and> link it = u}"
        by (auto split: if_splits)
      have "{s. \<exists>it. (s, it) \<in> set (hs @ [h]) \<and> link it = u}
              = insert (fst h) {s. \<exists>it. (s, it) \<in> set hs \<and> link it = u}"
        using True by (cases h) auto
      with Some True segs show ?thesis
        by (auto simp: add_hit_fields map_of_segm_step set_add_def)
    qed
  next
    case False
    then have "{s. \<exists>it. (s, it) \<in> set (hs @ [h]) \<and> link it = u}
                 = {s. \<exists>it. (s, it) \<in> set hs \<and> link it = u}"
      by (cases h) auto
    moreover have "u \<in> link ` snd ` set (hs @ [h]) \<longleftrightarrow> u \<in> link ` snd ` set hs"
      using False by auto
    ultimately show ?thesis
      using False snoc by (simp add: add_hit_fields map_of_segm_step)
  qed
qed

lemma hits_segments_nonempty:
  "map_of (related_url2segm (fold add_hit hs empty_discovery)) u = Some segs \<Longrightarrow> segs \<noteq> []"
proof (induction hs arbitrary: segs rule: rev_induct)
  case Nil
  then show ?case by (simp add: empty_discovery_def)
next
  case (snoc h hs)
  then show ?case
    by (auto simp: add_hit_fields map_of_segm_step set_add_def split: if_splits option.splits)
qed


lemma match_segments_result:
  "match_segments tu pats b segs best ms = Inr (best', ms') \<Longrightarrow>
   \<exists>new. ms' = ms @ new \<and> best' = fold max (map ratio new) best
      \<and> list_all2 (\<lambda>seg m. \<exists>p. pats seg = Some p
                        \<and> fuzzy_search tu b seg p = Inr (ratio m, match m)) segs new"
proof (induction segs arbitrary: best ms)
  case Nil
  then show ?case by simp
next
  case (Cons seg rest)
  from Cons.prems obtain p r m where
    p: "pats seg = Some p" and fs: "fuzzy_search tu b seg p = Inr (r, m)" and
    rec: "match_segments tu pats b rest (if r > best then r else best)
            (ms @ [\<lparr>match = m, ratio = r\<rparr>]) = Inr (best', ms')"
    by (auto split: option.splits sum.splits)
  from Cons.IH [OF rec] obtain new where
    new: "ms' = (ms @ [\<lparr>match = m, ratio = r\<rparr>]) @ new"
         "best' = fold max (map ratio new) (if r > best then r else best)"
         "list_all2 (\<lambda>seg m. \<exists>p. pats seg = Some p
                        \<and> fuzzy_search tu b seg p = Inr (ratio m, match m)) rest new"
    by blast
  have "(if r > best then r else best) = max r best" by (simp add: max_def)
  with new p fs show ?case
    by (intro exI [of _ "\<lparr>match = m, ratio = r\<rparr> # new"]) simp
qed

lemma fold_max_Max: "fold max rs (b::real) = Max (insert b (set rs))"
  using Max.set_eq_fold [of b rs] by simp

lemma verify_url_result:
  assumes "verify_url tu d url2html pats rel_url = Inr c"
  shows "url c = rel_url"
    and "map_of url2html rel_url = Some (html c)"
    and "map_of (related_url2segm d) rel_url = Some (segments c)"
    and "map_of (related_url2gse d) rel_url = Some (gseData c)"
    and "match_segments tu pats (body c) (segments c) 0 [] = Inr (bestRatio c, foundMatches c)"
    and "highRatio c = (bestRatio c > 0.5)"
  using assms
  by (auto simp: verify_url_def Let_def split: option.splits sum.splits)

lemma verify_urls_result:
  "verify_urls tu d url2html pats us = Inr out \<Longrightarrow>
   map url out = us \<and> (\<forall>c \<in> set out. verify_url tu d url2html pats (url c) = Inr c)"
proof (induction us arbitrary: out)
  case Nil
  then show ?case by simp
next
  case (Cons u us)
  from Cons.prems obtain c cs where
    c: "verify_url tu d url2html pats u = Inr c" and
    cs: "verify_urls tu d url2html pats us = Inr cs" and
    out: "out = c # cs"
    by (auto split: sum.splits)
  from verify_url_result(1) [OF c] have "url c = u" .
  with Cons.IH [OF cs] c out show ?case by simp
qed

lemma step_6_origin_result:
  assumes "step_6_origin tu gse = Inr out"
  shows "map url out = map fst (related_url2html (discover tu gse))"
    and "c \<in> set out \<Longrightarrow>
         \<exists>pats url2html. verify_url tu (discover tu gse) url2html pats (url c) = Inr c"
proof -
  define d where "d = discover tu gse"
  define url2html where "url2html = fetch_urls tu (related_url2html d)"
  define pats where "pats = compile_fuzzy_patterns tu (uniq_segments d)"
  have keys: "map fst url2html = map fst (related_url2html d)"
    by (simp add: url2html_def fetch_urls_def case_prod_beta)
  from assms have "verify_urls tu d url2html pats (map fst url2html) = Inr out"
    by (simp add: step_6_origin_def Let_def d_def url2html_def pats_def)
  from verify_urls_result [OF this] have
    u: "map url out = map fst url2html" and
    v: "\<forall>c \<in> set out. verify_url tu d url2html pats (url c) = Inr c"
    by simp_all
  from u keys show "map url out = map fst (related_url2html (discover tu gse))"
    by (simp add: d_def)
  show "\<exists>pats url2html. verify_url tu (discover tu gse) url2html pats (url c) = Inr c"
    if "c \<in> set out"
    using v that unfolding d_def by blast
qed

lemma step_6_loop_files:
  "step_6_loop tu i gses files = (files', err) \<Longrightarrow> (j, out) \<in> set files' \<Longrightarrow>
   (j, out) \<notin> set files \<Longrightarrow> \<exists>gse \<in> set gses. step_6_origin tu gse = Inr out"
proof (induction gses arbitrary: i files)
  case Nil
  then show ?case by simp
next
  case (Cons gse gses)
  show ?case
  proof (cases "step_6_origin tu gse")
    case (Inl e)
    with Cons.prems show ?thesis by simp
  next
    case (Inr x)
    with Cons.prems have
      rec: "step_6_loop tu (Suc i) gses (files @ [(i, x)]) = (files', err)" by simp
    show ?thesis
    proof (cases "(j, out) \<in> set (files @ [(i, x)])")
      case True
      with Cons.prems(3) have "out = x" by simp
      with Inr show ?thesis by simp
    next
      case False
      from Cons.IH [OF rec Cons.prems(2) False] show ?thesis by simp
    qed
  qed
qed

lemma step_6_files:
  "(j, out) \<in> set (fst (step_6_filter_out_unrelated tu gses)) \<Longrightarrow>
   \<exists>gse \<in> set gses. step_6_origin tu gse = Inr out"
  using step_6_loop_files [of tu 0 gses "[]" "fst (step_6_filter_out_unrelated tu gses)"
      "snd (step_6_filter_out_unrelated tu gses)" j out]
  by (simp add: step_6_filter_out_unrelated_def)

lemma ex_step_6_origin: "step_6_origin ex_text_util ex_gse = Inr [ex_candidate_a, ex_candidate_c]"
  by code_simp

lemma ex_step_6:
  "step_6_filter_out_unrelated ex_text_util [ex_gse] = ([(0, [ex_candidate_a, ex_candidate_c])], None)"
  by code_simp

lemma hits_snd:
  "map snd (hits tu gse)
     = filter (\<lambda>it. \<not> in_blacklist tu (PUnicode (link it))) (all_found_items gse)"
  by (induction gse) (simp_all add: hits_def all_found_items_def comp_def)

lemma hits_iff:
  "(s, it) \<in> set (hits tu gse) \<longleftrightarrow>
     (\<exists>e \<in> set gse. s = simplified_text tu (segment e) \<and> it \<in> set (foundItems e)
        \<and> \<not> in_blacklist tu (PUnicode (link it)))"
  by (auto simp: hits_def)

lemma find_filter_implied:
  "(\<And>x. P x \<Longrightarrow> Q x) \<Longrightarrow> find P (filter Q xs) = find P xs"
  by (induction xs) auto

lemma discover_keys:
  "map fst (related_url2html (discover tu gse)) = map fst (related_url2gse (discover tu gse))"
  "map fst (related_url2segm (discover tu gse)) = map fst (related_url2gse (discover tu gse))"
  "distinct (map fst (related_url2gse (discover tu gse)))"
  "set (map fst (related_url2gse (discover tu gse)))
     = {link it | it. it \<in> set (all_found_items gse) \<and> \<not> in_blacklist tu (PUnicode (link it))}"
proof -
  note k = hits_keys [of "hits tu gse"]
  from k show "map fst (related_url2html (discover tu gse)) = map fst (related_url2gse (discover tu gse))"
    by (simp add: discover_hits)
  from k show "map fst (related_url2segm (discover tu gse)) = map fst (related_url2gse (discover tu gse))"
    by (simp add: discover_hits)
  from k show "distinct (map fst (related_url2gse (discover tu gse)))"
    by (simp add: discover_hits)
  have "link ` snd ` set (hits tu gse) = link ` set (map snd (hits tu gse))"
    by simp
  also have "\<dots> = {link it | it. it \<in> set (all_found_items gse)
                        \<and> \<not> in_blacklist tu (PUnicode (link it))}"
    unfolding hits_snd by auto
  finally show "set (map fst (related_url2gse (discover tu gse)))
     = {link it | it. it \<in> set (all_found_items gse) \<and> \<not> in_blacklist tu (PUnicode (link it))}"
    using k by (simp add: discover_hits)
qed

lemma discover_first_annotation:
  assumes "\<not> in_blacklist tu (PUnicode u)"
  shows "map_of (related_url2gse (discover tu gse)) u
           = find (\<lambda>it. link it = u) (all_found_items gse)"
proof -
  have "map_of (related_url2gse (discover tu gse)) u
          = find (\<lambda>it. link it = u) (map snd (hits tu gse))"
    by (simp add: discover_hits hits_first_annotation)
  also have "\<dots> = find (\<lambda>it. link it = u) (all_found_items gse)"
    unfolding hits_snd using assms by (intro find_filter_implied) simp
  finally show ?thesis .
qed

lemma discover_segments:
  assumes "map_of (related_url2segm (discover tu gse)) u = Some segs"
  shows "set segs = {simplified_text tu (segment e) | e. e \<in> set gse \<and> u \<in> link ` set (foundItems e)}"
    and "\<not> in_blacklist tu (PUnicode u)"
proof -
  from assms have u: "u \<in> set (map fst (related_url2segm (discover tu gse)))"
    by (auto dest: map_of_SomeD intro: rev_image_eqI)
  then show nb: "\<not> in_blacklist tu (PUnicode u)"
    using discover_keys(2,4) [of tu gse] by auto
  from assms hits_segments [of "hits tu gse" u]
  have "set segs = {s. \<exists>it. (s, it) \<in> set (hits tu gse) \<and> link it = u}"
    by (auto simp: discover_hits split: if_splits)
  also have "\<dots> = {simplified_text tu (segment e) | e. e \<in> set gse \<and> u \<in> link ` set (foundItems e)}"
    using nb by (auto simp: hits_iff)
  finally show "set segs = {simplified_text tu (segment e) | e. e \<in> set gse \<and> u \<in> link ` set (foundItems e)}" .
qed


text \<open>
  Claim C1. For every candidate record in a file written by the verification stage:
  \<open>highRatio\<close> is true exactly when \<open>bestRatio > 0.5\<close>; \<open>bestRatio\<close> is the greatest of
  \<open>0.0\<close> and the ratios recorded in \<open>foundMatches\<close>, of which there is one per segment of
  the candidate, and a candidate has at least one segment; and if the fuzzy matcher only
  returns ratios between 0 and 1, then every recorded ratio is between 0 and 1 and
  \<open>bestRatio\<close> is the greatest of them.
\<close>

theorem threshold_law:
  assumes "(j, out) \<in> set (fst (step_6_filter_out_unrelated tu gses))" and "c \<in> set out"
  shows "(highRatio c \<longleftrightarrow> bestRatio c > 0.5)
       \<and> bestRatio c = Max (insert 0 (ratio ` set (foundMatches c)))
       \<and> length (foundMatches c) = length (segments c)
       \<and> segments c \<noteq> []
       \<and> ((\<forall>b s p r m. fuzzy_search tu b s p = Inr (r, m) \<longrightarrow> 0 \<le> r \<and> r \<le> 1)
            \<longrightarrow> (\<forall>m \<in> set (foundMatches c). 0 \<le> ratio m \<and> ratio m \<le> 1)
                \<and> bestRatio c = Max (ratio ` set (foundMatches c)))"
proof -
  from step_6_files [OF assms(1)] obtain gse where
    out: "step_6_origin tu gse = Inr out" by blast
  from step_6_origin_result(2) [OF out assms(2)] obtain pats url2html where
    v: "verify_url tu (discover tu gse) url2html pats (url c) = Inr c" by blast
  note r = verify_url_result [OF v]
  from match_segments_result [OF r(5)] obtain new where
    new: "foundMatches c = new" "bestRatio c = fold max (map ratio new) 0"
      "list_all2 (\<lambda>seg m. \<exists>p. pats seg = Some p
           \<and> fuzzy_search tu (body c) seg p = Inr (ratio m, match m)) (segments c) new"
    by auto
  have best: "bestRatio c = Max (insert 0 (ratio ` set (foundMatches c)))"
    using new by (simp add: fold_max_Max)
  have len: "length (foundMatches c) = length (segments c)"
    using new by (simp add: list_all2_lengthD)
  have ne: "segments c \<noteq> []"
    using r(3) hits_segments_nonempty [of "hits tu gse" "url c" "segments c"]
    by (simp add: discover_hits)
  have bounded: "(\<forall>m \<in> set (foundMatches c). 0 \<le> ratio m \<and> ratio m \<le> 1)
                \<and> bestRatio c = Max (ratio ` set (foundMatches c))"
    if h: "\<forall>b s p r m. fuzzy_search tu b s p = Inr (r, m) \<longrightarrow> 0 \<le> r \<and> r \<le> 1"
  proof -
    have src: "\<forall>m \<in> set (foundMatches c).
        \<exists>seg p. fuzzy_search tu (body c) seg p = Inr (ratio m, match m)"
      using new(1,3) by (fastforce simp: list_all2_conv_all_nth in_set_conv_nth)
    have b: "\<forall>m \<in> set (foundMatches c). 0 \<le> ratio m \<and> ratio m \<le> 1"
      using src h by blast
    from ne len have "foundMatches c \<noteq> []" by auto
    then obtain m where m: "m \<in> set (foundMatches c)" by (cases "foundMatches c") auto
    let ?A = "ratio ` set (foundMatches c)"
    have A: "finite ?A" "?A \<noteq> {}" using m by auto
    have "0 \<le> ratio m" using b m by blast
    also have "ratio m \<le> Max ?A" using m by (intro Max_ge) auto
    finally have "max 0 (Max ?A) = Max ?A" by simp
    with A have "Max (insert 0 ?A) = Max ?A" by (simp add: Max_insert)
    with best b show ?thesis by simp
  qed
  from r(6) best len ne bounded show ?thesis by blast
qed

theorem threshold_law_witness:
  "(0, [ex_candidate_a, ex_candidate_c]) \<in> set (fst (step_6_filter_out_unrelated ex_text_util [ex_gse]))
   \<and> ex_candidate_a \<in> set [ex_candidate_a, ex_candidate_c]
   \<and> \<not> (\<exists>b s p r m. fuzzy_search ex_text_util b s p = Inr (r, m) \<and> \<not> (0 \<le> r \<and> r \<le> 1))
   \<and> highRatio ex_candidate_a \<and> bestRatio ex_candidate_a = 0.62
   \<and> bestRatio ex_candidate_a = Max (ratio ` set (foundMatches ex_candidate_a))
   \<and> list_all (\<lambda>m. 0 \<le> ratio m \<and> ratio m \<le> 1) (foundMatches ex_candidate_a)"
proof -
  have 1: "(0, [ex_candidate_a, ex_candidate_c])
      \<in> set (fst (step_6_filter_out_unrelated ex_text_util [ex_gse]))"
    by (simp add: ex_step_6)
  have 2: "ex_candidate_a \<in> set [ex_candidate_a, ex_candidate_c]" by simp
  have 3: "\<forall>b s p r m. fuzzy_search ex_text_util b s p = Inr (r, m) \<longrightarrow> 0 \<le> r \<and> r \<le> 1"
    by (simp add: ex_text_util_def)
  have 4: "bestRatio ex_candidate_a = 0.62" by (simp add: ex_candidate_a_def)
  from threshold_law [OF 1 2] 3 have
    5: "highRatio ex_candidate_a"
       "bestRatio ex_candidate_a = Max (ratio ` set (foundMatches ex_candidate_a))"
       "list_all (\<lambda>m. 0 \<le> ratio m \<and> ratio m \<le> 1) (foundMatches ex_candidate_a)"
    by (simp_all add: 4 list_all_iff)
  from 3 have 6: "\<not> (\<exists>b s p r m. fuzzy_search ex_text_util b s p = Inr (r, m)
                       \<and> \<not> (0 \<le> r \<and> r \<le> 1))"
    by blast
  from 1 2 4 5 6 show ?thesis by blast
qed

text \<open>
  Claim C2. In the discovery, each of the three dicts has every URL at most once as a key.
  A URL that is a key is associated with the set of all simplified segments that have a
  hit with that URL, and with the first hit with that URL in the order of iteration; later
  hits with the same URL are dropped. When the stage writes the file of the origin, the
  URLs of its records are the URLs of the hits that are not blacklisted, each once, and
  each record carries that set of segments and that first hit.
\<close>

theorem discovery_dedup:
  "distinct (map fst (related_url2gse (discover tu gse)))
   \<and> distinct (map fst (related_url2segm (discover tu gse)))
   \<and> distinct (map fst (related_url2html (discover tu gse)))
   \<and> (\<forall>u segs. map_of (related_url2segm (discover tu gse)) u = Some segs \<longrightarrow>
         set segs = {simplified_text tu (segment e) | e.
                       e \<in> set gse \<and> u \<in> link ` set (foundItems e)}
       \<and> map_of (related_url2gse (discover tu gse)) u
            = find (\<lambda>it. link it = u) (all_found_items gse))
   \<and> (\<forall>out. step_6_origin tu gse = Inr out \<longrightarrow>
         distinct (map url out)
       \<and> set (map url out) = {link it | it. it \<in> set (all_found_items gse)
                                  \<and> \<not> in_blacklist tu (PUnicode (link it))}
       \<and> (\<forall>c \<in> set out.
             set (segments c) = {simplified_text tu (segment e) | e.
                                   e \<in> set gse \<and> url c \<in> link ` set (foundItems e)}
           \<and> find (\<lambda>it. link it = url c) (all_found_items gse) = Some (gseData c)))"
proof -
  note k = discover_keys [of tu gse]
  have dict: "set segs = {simplified_text tu (segment e) | e.
                       e \<in> set gse \<and> u \<in> link ` set (foundItems e)}
       \<and> map_of (related_url2gse (discover tu gse)) u
            = find (\<lambda>it. link it = u) (all_found_items gse)"
    if "map_of (related_url2segm (discover tu gse)) u = Some segs" for u segs
    using discover_segments [OF that] discover_first_annotation [of tu u gse] by simp
  have outp: "distinct (map url out)
       \<and> set (map url out) = {link it | it. it \<in> set (all_found_items gse)
                                  \<and> \<not> in_blacklist tu (PUnicode (link it))}
       \<and> (\<forall>c \<in> set out.
             set (segments c) = {simplified_text tu (segment e) | e.
                                   e \<in> set gse \<and> url c \<in> link ` set (foundItems e)}
           \<and> find (\<lambda>it. link it = url c) (all_found_items gse) = Some (gseData c))"
    if out: "step_6_origin tu gse = Inr out" for out
  proof -
    note r = step_6_origin_result [OF out]
    have "set (segments c) = {simplified_text tu (segment e) | e.
                                   e \<in> set gse \<and> url c \<in> link ` set (foundItems e)}
           \<and> find (\<lambda>it. link it = url c) (all_found_items gse) = Some (gseData c)"
      if c: "c \<in> set out" for c
    proof -
      from r(2) [OF c] obtain pats url2html where
        v: "verify_url tu (discover tu gse) url2html pats (url c) = Inr c" by blast
      note vr = verify_url_result [OF v]
      from dict [OF vr(3)] vr(4) show ?thesis by simp
    qed
    with r(1) k show ?thesis by simp
  qed
  show ?thesis
  proof (intro conjI allI impI)
    fix u segs assume a: "map_of (related_url2segm (discover tu gse)) u = Some segs"
    from dict [OF a] show "set segs = {simplified_text tu (segment e) | e.
                       e \<in> set gse \<and> u \<in> link ` set (foundItems e)}"
      and "map_of (related_url2gse (discover tu gse)) u
            = find (\<lambda>it. link it = u) (all_found_items gse)"
      by blast+
  next
    fix out assume a: "step_6_origin tu gse = Inr out"
    from outp [OF a] show "distinct (map url out)"
      and "set (map url out) = {link it | it. it \<in> set (all_found_items gse)
                                  \<and> \<not> in_blacklist tu (PUnicode (link it))}"
      and "\<forall>c \<in> set out.
             set (segments c) = {simplified_text tu (segment e) | e.
                                   e \<in> set gse \<and> url c \<in> link ` set (foundItems e)}
           \<and> find (\<lambda>it. link it = url c) (all_found_items gse) = Some (gseData c)"
      by blast+
  qed (use k in simp_all)
qed

theorem discovery_dedup_witness:
  "map_of (related_url2segm (discover ex_text_util ex_gse)) (url ex_candidate_a)
      = Some (segments ex_candidate_a)
   \<and> step_6_origin ex_text_util ex_gse = Inr [ex_candidate_a, ex_candidate_c]
   \<and> ex_candidate_a \<in> set [ex_candidate_a, ex_candidate_c]
   \<and> distinct (map url [ex_candidate_a, ex_candidate_c])
   \<and> segments ex_candidate_a = [map of_char ''first quote'', map of_char ''second quote'']
   \<and> map_of (related_url2gse (discover ex_text_util ex_gse)) (url ex_candidate_a)
        = find (\<lambda>it. link it = url ex_candidate_a) (all_found_items ex_gse)
   \<and> find (\<lambda>it. link it = url ex_candidate_a) (all_found_items ex_gse)
        = Some \<lparr>link = map of_char ''http://a.example/1'', annotation = ''hit 1''\<rparr>"
proof -
  note t = discovery_dedup [of ex_text_util ex_gse]
  have 1: "map_of (related_url2segm (discover ex_text_util ex_gse)) (url ex_candidate_a)
      = Some (segments ex_candidate_a)"
    by code_simp
  have 2: "step_6_origin ex_text_util ex_gse = Inr [ex_candidate_a, ex_candidate_c]"
    by (rule ex_step_6_origin)
  have 3: "ex_candidate_a \<in> set [ex_candidate_a, ex_candidate_c]" by simp
  from t 1 have 4: "map_of (related_url2gse (discover ex_text_util ex_gse)) (url ex_candidate_a)
        = find (\<lambda>it. link it = url ex_candidate_a) (all_found_items ex_gse)"
    by blast
  from t 2 have 5: "distinct (map url [ex_candidate_a, ex_candidate_c])"
    and 6: "\<forall>c \<in> set [ex_candidate_a, ex_candidate_c].
        find (\<lambda>it. link it = url c) (all_found_items ex_gse) = Some (gseData c)"
    by blast+
  from 6 3 have 7: "find (\<lambda>it. link it = url ex_candidate_a) (all_found_items ex_gse)
        = Some \<lparr>link = map of_char ''http://a.example/1'', annotation = ''hit 1''\<rparr>"
    by (simp add: ex_candidate_a_def)
  have 8: "segments ex_candidate_a = [map of_char ''first quote'', map of_char ''second quote'']"
    by (simp add: ex_candidate_a_def)
  from 1 2 3 4 5 7 8 show ?thesis by blast
qed


section \<open>Properties of the extraction stage, and of both stages\<close>

lemma process_link_entry_Some:
  assumes "process_link_entry ex aid le = Inr (Some e, l)"
  shows "highRatio le" and "cr_id e = aid" and "cr_url e = utf8_encode (url le)"
    and "cr_body e = utf8_encode (body le)"
    and "\<not> blacklist_contains ex (PStr (cr_url e))"
  using assms
  by (auto simp: process_link_entry_def Let_def split: if_splits sum.splits)

lemma step_7_entries_ids:
  "step_7_entries ex les aid out lg = Inr (out', lg') \<Longrightarrow>
   \<exists>new. out' = out @ new \<and> map cr_id new = [aid..aid + int (length new) - 1]"
proof (induction les arbitrary: aid out lg)
  case Nil
  then show ?case by simp
next
  case (Cons le les)
  from Cons.prems obtain eo l where p: "process_link_entry ex aid le = Inr (eo, l)"
    by (auto split: sum.splits)
  show ?case
  proof (cases eo)
    case None
    with Cons.prems p have "step_7_entries ex les aid out (lg @ l) = Inr (out', lg')" by simp
    from Cons.IH [OF this] show ?thesis .
  next
    case (Some e)
    with Cons.prems p have
      "step_7_entries ex les (aid + 1) (out @ [e]) (lg @ l) = Inr (out', lg')" by simp
    from Cons.IH [OF this] obtain new where
      new: "out' = (out @ [e]) @ new" "map cr_id new = [aid + 1..aid + 1 + int (length new) - 1]"
      by blast
    from p Some have "cr_id e = aid" by (simp add: process_link_entry_Some(2))
    with new have "map cr_id (e # new) = [aid..aid + int (length (e # new)) - 1]"
      by (simp add: upto_rec1 [of aid] add.commute add.left_commute)
    with new(1) show ?thesis by (intro exI [of _ "e # new"]) simp
  qed
qed

lemma step_7_entries_from:
  "step_7_entries ex les aid out lg = Inr (out', lg') \<Longrightarrow> e \<in> set out' \<Longrightarrow> e \<notin> set out \<Longrightarrow>
   \<exists>le \<in> set les. \<exists>aid' l. process_link_entry ex aid' le = Inr (Some e, l)"
proof (induction les arbitrary: aid out lg)
  case Nil
  then show ?case by simp
next
  case (Cons le les)
  from Cons.prems(1) obtain eo l where p: "process_link_entry ex aid le = Inr (eo, l)"
    by (auto split: sum.splits)
  show ?case
  proof (cases eo)
    case None
    with Cons.prems p have "step_7_entries ex les aid out (lg @ l) = Inr (out', lg')" by simp
    from Cons.IH [OF this Cons.prems(2,3)] show ?thesis by simp
  next
    case (Some e')
    with Cons.prems p have
      rec: "step_7_entries ex les (aid + 1) (out @ [e']) (lg @ l) = Inr (out', lg')" by simp
    show ?thesis
    proof (cases "e = e'")
      case True
      with p Some show ?thesis by auto
    next
      case False
      with Cons.prems(3) have "e \<notin> set (out @ [e'])" by simp
      from Cons.IH [OF rec Cons.prems(2) this] show ?thesis by simp
    qed
  qed
qed

lemma step_7_loop_files:
  "step_7_loop ex i inputs files lg = (files', lg', err) \<Longrightarrow> (j, out) \<in> set files' \<Longrightarrow>
   (j, out) \<notin> set files \<Longrightarrow> \<exists>les \<in> set inputs. \<exists>l. step_7_origin ex les = Inr (out, l)"
proof (induction inputs arbitrary: i files lg)
  case Nil
  then show ?case by simp
next
  case (Cons les inputs)
  show ?case
  proof (cases "step_7_origin ex les")
    case (Inl e)
    with Cons.prems show ?thesis by simp
  next
    case (Inr r)
    obtain x l where r: "r = (x, l)" by (cases r)
    with Inr Cons.prems have
      rec: "step_7_loop ex (Suc i) inputs (files @ [(i, x)]) (lg @ l @ [SavingEntries (length x)])
              = (files', lg', err)" by simp
    show ?thesis
    proof (cases "(j, out) \<in> set (files @ [(i, x)])")
      case True
      with Cons.prems(3) have "out = x" by simp
      with Inr r show ?thesis by simp
    next
      case False
      from Cons.IH [OF rec Cons.prems(2) False] show ?thesis by simp
    qed
  qed
qed

lemma step_7_files:
  assumes "(j, out) \<in> set (fst (step_7_gen_cr_data ex inputs))"
  shows "\<exists>les \<in> set inputs. \<exists>l. step_7_origin ex les = Inr (out, l)"
proof -
  obtain files lg err where r: "step_7_gen_cr_data ex inputs = (files, lg, err)"
    by (cases "step_7_gen_cr_data ex inputs")
  then have "step_7_loop ex 0 inputs [] [] = (files, lg, err)"
    by (simp add: step_7_gen_cr_data_def)
  from step_7_loop_files [OF this, of j out] assms r show ?thesis by simp
qed

lemma process_link_entry_aid:
  "process_link_entry ex aid le =
     (case process_link_entry ex 0 le of
        Inl e \<Rightarrow> Inl e
      | Inr (eo, l) \<Rightarrow> Inr (map_option (\<lambda>e. e\<lparr>cr_id := aid\<rparr>) eo, l))"
  by (simp add: process_link_entry_def Let_def split: sum.splits)

lemma extracts_iff:
  "extracts ex le \<longleftrightarrow> (\<exists>e l. process_link_entry ex aid le = Inr (Some e, l))"
  unfolding extracts_def process_link_entry_aid [of ex aid le]
  by (auto split: sum.splits option.splits prod.splits)

lemma step_7_entries_count:
  "step_7_entries ex les aid out lg = Inr (out', lg') \<Longrightarrow>
   length out' = length out + length (filter (extracts ex) les)"
proof (induction les arbitrary: aid out lg)
  case Nil
  then show ?case by simp
next
  case (Cons le les)
  from Cons.prems obtain eo l where p: "process_link_entry ex aid le = Inr (eo, l)"
    by (auto split: sum.splits)
  show ?case
  proof (cases eo)
    case None
    with p have "\<not> extracts ex le" by (simp add: extracts_iff [of ex le aid])
    moreover from None Cons.prems p have
      "step_7_entries ex les aid out (lg @ l) = Inr (out', lg')" by simp
    ultimately show ?thesis using Cons.IH by simp
  next
    case (Some e)
    with p have "extracts ex le" by (auto simp: extracts_iff [of ex le aid])
    moreover from Some Cons.prems p have
      "step_7_entries ex les (aid + 1) (out @ [e]) (lg @ l) = Inr (out', lg')" by simp
    ultimately show ?thesis using Cons.IH [of "aid + 1" "out @ [e]" "lg @ l"] by simp
  qed
qed

text \<open>
  Claim C4, as amended. For every origin, the entries of \<open>output_data\<close> carry the ids
  \<open>1, 2, ..., n\<close> in this order, where \<open>n\<close> is the number of link entries whose round
  appends an entry: the id goes up by one per successful extraction, a link entry that is
  skipped receives no id and uses none up, and the ids that are assigned have no gap.
\<close>

theorem ref_ids_without_gaps:
  assumes "step_7_origin ex link_entries = Inr (output_data, l)"
  shows "map cr_id output_data = [1..int (length output_data)]
       \<and> length output_data = length (filter (extracts ex) link_entries)"
proof -
  from assms have s: "step_7_entries ex link_entries 1 [] [] = Inr (output_data, l)"
    by (simp add: step_7_origin_def)
  from step_7_entries_ids [OF s] step_7_entries_count [OF s] show ?thesis by simp
qed




lemma ex_step_7_ids:
  "(case step_7_origin ex_extraction ex_link_entries of
      Inl e \<Rightarrow> [] | Inr (out, l) \<Rightarrow> map cr_id out) = [1, 2]"
  by code_simp

theorem ref_ids_without_gaps_witness:
  "(\<exists>out l. step_7_origin ex_extraction ex_link_entries = Inr (out, l)
       \<and> map cr_id out = [1..int (length out)]
       \<and> length out = length (filter (extracts ex_extraction) ex_link_entries)
       \<and> map cr_id out = [1, 2])"
proof -
  obtain out l where s: "step_7_origin ex_extraction ex_link_entries = Inr (out, l)"
    using ex_step_7_ids by (cases "step_7_origin ex_extraction ex_link_entries") auto
  with ex_step_7_ids have "map cr_id out = [1, 2]" by simp
  with s ref_ids_without_gaps [OF s] show ?thesis
    by (intro exI [of _ out] exI [of _ l]) simp
qed

text \<open>
  The claim as stated has gaps in the assigned ids where candidates were skipped. In the
  example the second, third and fourth link entries are skipped, and the first and the
  fifth are given the ids 1 and 2.
\<close>

theorem ref_id_gaps_counterexample:
  "process_link_entry ex_extraction 2 (ex_link_entries ! 1)
      = Inr (None, [HtmlCannotBeParsed ''http://b.example/2''])
   \<and> process_link_entry ex_extraction 2 (ex_link_entries ! 2) = Inr (None, [])
   \<and> process_link_entry ex_extraction 2 (ex_link_entries ! 3) = Inr (None, [])
   \<and> (case step_7_origin ex_extraction ex_link_entries of
         Inl e \<Rightarrow> [] | Inr (out, l) \<Rightarrow> map cr_url out)
       = [''http://a.example/1'', ''http://d.example/4'']
   \<and> (case step_7_origin ex_extraction ex_link_entries of
         Inl e \<Rightarrow> [] | Inr (out, l) \<Rightarrow> map cr_id out) = [1, 2]"
  by code_simp



lemma ex_step_7:
  "step_7_gen_cr_data ex_extraction [ex_link_entries]
     = ([(0, [ex_cr_entry 1 ''http://a.example/1'' ''quoting page'' ''hit 1'',
              ex_cr_entry 2 ''http://d.example/4'' ''second quoting page'' ''hit 4''])],
        [HtmlCannotBeParsed ''http://b.example/2'', SavingEntries 2], None)"
  by code_simp



lemma step_6_origin_not_blacklisted:
  assumes "step_6_origin tu gse = Inr out" and "c \<in> set out"
  shows "\<not> in_blacklist tu (PUnicode (url c))"
proof -
  from assms(2) have "url c \<in> set (map url out)" by simp
  also have "map url out = map fst (related_url2gse (discover tu gse))"
    using step_6_origin_result(1) [OF assms(1)] discover_keys(1) [of tu gse] by simp
  finally show ?thesis
    using discover_keys(4) [of tu gse] by auto
qed

lemma fetched_not_blacklisted:
  assumes "u \<in> set (map fst (related_url2html (discover tu gse)))"
  shows "\<not> in_blacklist tu (PUnicode u)"
  using assms discover_keys(1,4) [of tu gse] by auto

lemma step_7_origin_not_blacklisted:
  assumes "step_7_origin ex les = Inr (out, l)" and "e \<in> set out"
  shows "\<not> blacklist_contains ex (PStr (cr_url e))"
    and "\<exists>le \<in> set les. highRatio le \<and> cr_url e = utf8_encode (url le)"
proof -
  from assms(1) have "step_7_entries ex les 1 [] [] = Inr (out, l)"
    by (simp add: step_7_origin_def)
  from step_7_entries_from [OF this assms(2)] obtain le aid' l' where
    le: "le \<in> set les" and p: "process_link_entry ex aid' le = Inr (Some e, l')"
    by auto
  note r = process_link_entry_Some [OF p]
  from r(5) show "\<not> blacklist_contains ex (PStr (cr_url e))" .
  from le r(1,3) show "\<exists>le \<in> set les. highRatio le \<and> cr_url e = utf8_encode (url le)"
    by blast
qed

text \<open>
  Claim C6. No candidate record in a file of the verification stage has a blacklisted
  URL, and no URL handed to the fetcher is blacklisted; no entry in a file of the
  extraction stage has a blacklisted URL, and each comes from a link entry with a high
  ratio; a link entry with a high ratio and a blacklisted URL is skipped before its page
  is parsed.
\<close>

theorem blacklist_enforced:
  "(\<forall>(j, out) \<in> set (fst (step_6_filter_out_unrelated tu gses)).
       \<forall>c \<in> set out. \<not> in_blacklist tu (PUnicode (url c)))
   \<and> (\<forall>u \<in> set (map fst (related_url2html (discover tu gse))).
         \<not> in_blacklist tu (PUnicode u))
   \<and> (\<forall>(j, out) \<in> set (fst (step_7_gen_cr_data ex inputs)).
         \<forall>e \<in> set out. \<not> blacklist_contains ex (PStr (cr_url e))
            \<and> (\<exists>les \<in> set inputs. \<exists>le \<in> set les. highRatio le \<and> cr_url e = utf8_encode (url le)))
   \<and> (highRatio le \<and> blacklist_contains ex (PStr (utf8_encode (url le)))
         \<longrightarrow> process_link_entry ex aid le = Inr (None, []))"
proof (intro conjI)
  show "\<forall>(j, out) \<in> set (fst (step_6_filter_out_unrelated tu gses)).
       \<forall>c \<in> set out. \<not> in_blacklist tu (PUnicode (url c))"
  proof (intro ballI, clarify)
    fix j out c
    assume f: "(j, out) \<in> set (fst (step_6_filter_out_unrelated tu gses))"
      and c: "c \<in> set out" and b: "in_blacklist tu (PUnicode (url c))"
    from step_6_files [OF f] obtain g where "step_6_origin tu g = Inr out" by blast
    from step_6_origin_not_blacklisted [OF this c] b show False by contradiction
  qed
next
  show "\<forall>u \<in> set (map fst (related_url2html (discover tu gse))).
         \<not> in_blacklist tu (PUnicode u)"
    using fetched_not_blacklisted by blast
next
  show "\<forall>(j, out) \<in> set (fst (step_7_gen_cr_data ex inputs)).
         \<forall>e \<in> set out. \<not> blacklist_contains ex (PStr (cr_url e))
            \<and> (\<exists>les \<in> set inputs. \<exists>le \<in> set les. highRatio le \<and> cr_url e = utf8_encode (url le))"
  proof (intro ballI, clarify)
    fix j out e
    assume f: "(j, out) \<in> set (fst (step_7_gen_cr_data ex inputs))" and e: "e \<in> set out"
    from step_7_files [OF f] obtain les l where
      les: "les \<in> set inputs" and s: "step_7_origin ex les = Inr (out, l)" by blast
    from step_7_origin_not_blacklisted [OF s e] les
    show "\<not> blacklist_contains ex (PStr (cr_url e))
            \<and> (\<exists>les \<in> set inputs. \<exists>le \<in> set les. highRatio le \<and> cr_url e = utf8_encode (url le))"
      by blast
  qed
next
  show "highRatio le \<and> blacklist_contains ex (PStr (utf8_encode (url le)))
         \<longrightarrow> process_link_entry ex aid le = Inr (None, [])"
    by (simp add: process_link_entry_def Let_def)
qed


theorem blacklist_enforced_witness:
  "(0, [ex_candidate_a, ex_candidate_c])
      \<in> set (fst (step_6_filter_out_unrelated ex_text_util [ex_gse]))
   \<and> ex_candidate_a \<in> set [ex_candidate_a, ex_candidate_c]
   \<and> \<not> in_blacklist ex_text_util (PUnicode (url ex_candidate_a))
   \<and> map of_char ''http://a.example/1''
        \<in> set (map fst (related_url2html (discover ex_text_util ex_gse)))
   \<and> \<not> in_blacklist ex_text_util (PUnicode (map of_char ''http://a.example/1''))
   \<and> (0, [ex_cr_entry 1 ''http://a.example/1'' ''quoting page'' ''hit 1'',
            ex_cr_entry 2 ''http://d.example/4'' ''second quoting page'' ''hit 4''])
        \<in> set (fst (step_7_gen_cr_data ex_extraction [ex_link_entries]))
   \<and> \<not> blacklist_contains ex_extraction
          (PStr (cr_url (ex_cr_entry 1 ''http://a.example/1'' ''quoting page'' ''hit 1'')))
   \<and> highRatio (ex_link_entries ! 3)
   \<and> blacklist_contains ex_extraction (PStr (utf8_encode (url (ex_link_entries ! 3))))
   \<and> process_link_entry ex_extraction 2 (ex_link_entries ! 3) = Inr (None, [])"
proof -
  let ?e1 = "ex_cr_entry 1 ''http://a.example/1'' ''quoting page'' ''hit 1''"
  let ?e2 = "ex_cr_entry 2 ''http://d.example/4'' ''second quoting page'' ''hit 4''"
  note t = blacklist_enforced [of ex_text_util "[ex_gse]" ex_gse ex_extraction
      "[ex_link_entries]" "ex_link_entries ! 3" 2]
  have 1: "(0, [ex_candidate_a, ex_candidate_c])
      \<in> set (fst (step_6_filter_out_unrelated ex_text_util [ex_gse]))"
    by (simp add: ex_step_6)
  have 2: "ex_candidate_a \<in> set [ex_candidate_a, ex_candidate_c]" by simp
  have 3: "map of_char ''http://a.example/1''
        \<in> set (map fst (related_url2html (discover ex_text_util ex_gse)))"
    by code_simp
  have 4: "(0, [?e1, ?e2]) \<in> set (fst (step_7_gen_cr_data ex_extraction [ex_link_entries]))"
    by (simp add: ex_step_7)
  have 5: "?e1 \<in> set [?e1, ?e2]" by simp
  have 6: "highRatio (ex_link_entries ! 3)"
    by (simp add: ex_link_entries_def ex_link_entry_def)
  have 7: "blacklist_contains ex_extraction (PStr (utf8_encode (url (ex_link_entries ! 3))))"
    by code_simp
  from t 1 2 have a: "\<not> in_blacklist ex_text_util (PUnicode (url ex_candidate_a))"
    by blast
  from t 3 have b: "\<not> in_blacklist ex_text_util (PUnicode (map of_char ''http://a.example/1''))"
    by blast
  from t 4 5 have c: "\<not> blacklist_contains ex_extraction (PStr (cr_url ?e1))"
    by blast
  from t 6 7 have d: "process_link_entry ex_extraction 2 (ex_link_entries ! 3) = Inr (None, [])"
    by blast
  from 1 2 a 3 b 4 c 6 7 d show ?thesis by (intro conjI)
qed












section \<open>Properties of the cross-reference stage\<close>

lemma read_entries_ids:
  "read_entries ri articles = Inr entries \<Longrightarrow> map ref_id entries = map ad_id articles"
proof (induction articles arbitrary: entries)
  case Nil
  then show ?case by simp
next
  case (Cons a articles)
  from Cons.prems obtain e es where
    e: "read_ref_entry ri a = Inr e" and es: "read_entries ri articles = Inr es"
    and entries: "entries = e # es"
    by (auto split: sum.splits)
  from e have "ref_id e = ad_id a"
    by (auto simp: read_ref_entry_def split: sum.splits)
  with Cons.IH [OF es] entries show ?case by simp
qed

lemma read_entries_each:
  "read_entries ri articles = Inr entries \<Longrightarrow>
   list_all2 (\<lambda>a e. read_ref_entry ri a = Inr e) articles entries"
  by (induction articles arbitrary: entries) (auto split: sum.splits)

lemma fold_append_each: "fold (\<lambda>pair es. es @ [pair]) xs ys = ys @ xs"
  by (induction xs arbitrary: ys) simp_all

lemma fold_update_keys:
  "fst ` set (fold (\<lambda>entry ns. AList.update (k entry) (v entry) ns) es ns)
     = fst ` set ns \<union> k ` set es"
  by (induction es arbitrary: ns) (auto simp: dom_update [unfolded dom_map_of_conv_image_fst])

lemma fold_update_keys_distinct:
  "distinct (map fst ns) \<Longrightarrow>
   distinct (map fst (fold (\<lambda>entry ns. AList.update (k entry) (v entry) ns) es ns))"
  by (induction es arbitrary: ns) (simp_all add: distinct_update)

lemma fold_update_lookup:
  "x \<in> k ` set es \<Longrightarrow>
   \<exists>e \<in> set es. k e = x
      \<and> map_of (fold (\<lambda>entry ns. AList.update (k entry) (v entry) ns) es ns) x = Some (v e)"
proof (induction es rule: rev_induct)
  case Nil
  then show ?case by simp
next
  case (snoc e es)
  show ?case
  proof (cases "k e = x")
    case True
    then show ?thesis by (auto simp: update_conv')
  next
    case False
    with snoc.prems have "x \<in> k ` set es" by auto
    from snoc.IH [OF this] False show ?thesis by (auto simp: update_conv')
  qed
qed

lemma step_8_origin_graph:
  assumes "step_8_origin ri articles = Inr g"
  obtains entries where "read_entries ri articles = Inr entries"
    and "edges g = find_cross_references ri entries 3"
    and "nodes g = fold (\<lambda>entry ns. AList.update (ref_id entry) (node_of ri entry) ns) entries []"
  using assms
  by (auto simp: step_8_origin_def Let_def iterentries_def fold_append_each split: sum.splits)

text \<open>
  Claim C7, as amended. For every origin, the graph that is emitted has a node under the
  id of every entry of the origin and no other node, whatever the edges are, so that an
  entry without an edge is a node all the same; the node under the id of an entry carries
  that id, and mirrors the entry when no other entry has the same id. The edges are the
  links that the index returns, each one as it comes and as often as it comes: the stage
  removes no duplicate. If every link is a pair of two different ids of indexed entries,
  then every edge joins two different ids that are both nodes.
\<close>

theorem graph_well_formed:
  assumes "step_8_origin ri articles = Inr g"
  shows "fst ` set (nodes g) = ad_id ` set articles
       \<and> distinct (map fst (nodes g))
       \<and> (\<forall>a \<in> set articles. \<exists>n. map_of (nodes g) (ad_id a) = Some n \<and> refId n = ad_id a)
       \<and> (distinct (map ad_id articles) \<longrightarrow>
            (\<forall>a \<in> set articles. \<exists>e. read_ref_entry ri a = Inr e
                \<and> map_of (nodes g) (ad_id a) = Some (node_of ri e)))
       \<and> (\<exists>entries. read_entries ri articles = Inr entries
              \<and> edges g = find_cross_references ri entries 3)
       \<and> ((\<forall>entries. read_entries ri articles = Inr entries \<longrightarrow>
               links_well_formed (ref_id ` set entries) (find_cross_references ri entries 3))
           \<longrightarrow> list_all (\<lambda>(a, b). a \<noteq> b \<and> a \<in> fst ` set (nodes g) \<and> b \<in> fst ` set (nodes g))
                  (edges g))"
proof -
  from assms obtain entries where
    entries: "read_entries ri articles = Inr entries" and
    e: "edges g = find_cross_references ri entries 3" and
    n: "nodes g = fold (\<lambda>entry ns. AList.update (ref_id entry) (node_of ri entry) ns) entries []"
    by (rule step_8_origin_graph)
  note ids = read_entries_ids [OF entries]
  have idset: "ref_id ` set entries = ad_id ` set articles"
    using ids by (metis set_map)
  have keys: "fst ` set (nodes g) = ad_id ` set articles"
    unfolding n using fold_update_keys [of ref_id "node_of ri" entries "[]"] idset by simp
  have dist: "distinct (map fst (nodes g))"
    unfolding n by (rule fold_update_keys_distinct) simp
  have look: "\<exists>e \<in> set entries. ref_id e = x \<and> map_of (nodes g) x = Some (node_of ri e)"
    if "x \<in> ad_id ` set articles" for x
    unfolding n using that idset by (intro fold_update_lookup) simp
  have each: "\<forall>a \<in> set articles. \<exists>n. map_of (nodes g) (ad_id a) = Some n \<and> refId n = ad_id a"
  proof
    fix a assume "a \<in> set articles"
    then have "ad_id a \<in> ad_id ` set articles" by simp
    from look [OF this] obtain e where
      "ref_id e = ad_id a" "map_of (nodes g) (ad_id a) = Some (node_of ri e)" by blast
    then show "\<exists>n. map_of (nodes g) (ad_id a) = Some n \<and> refId n = ad_id a"
      by (simp add: node_of_def)
  qed
  have mirror: "\<forall>a \<in> set articles. \<exists>e. read_ref_entry ri a = Inr e
                \<and> map_of (nodes g) (ad_id a) = Some (node_of ri e)"
    if d: "distinct (map ad_id articles)"
  proof
    fix a assume a: "a \<in> set articles"
    then obtain i where i: "i < length articles" "articles ! i = a"
      by (auto simp: in_set_conv_nth)
    from read_entries_each [OF entries] i have
      len: "length entries = length articles" and
      r: "read_ref_entry ri a = Inr (entries ! i)"
      by (auto simp: list_all2_conv_all_nth)
    from a have "ad_id a \<in> ad_id ` set articles" by simp
    from look [OF this] obtain e where
      e: "e \<in> set entries" "ref_id e = ad_id a" "map_of (nodes g) (ad_id a) = Some (node_of ri e)"
      by blast
    from e(1) obtain j where j: "j < length entries" "entries ! j = e"
      by (auto simp: in_set_conv_nth)
    from d ids have "distinct (map ref_id entries)" by simp
    moreover have "map ref_id entries ! j = map ref_id entries ! i"
      using i j len e(2) ids by (metis nth_map)
    ultimately have "j = i"
      using i j len nth_eq_iff_index_eq [of "map ref_id entries" j i] by simp
    with j r e(3) show "\<exists>e. read_ref_entry ri a = Inr e
                \<and> map_of (nodes g) (ad_id a) = Some (node_of ri e)"
      by auto
  qed
  have copy: "\<exists>entries. read_entries ri articles = Inr entries
              \<and> edges g = find_cross_references ri entries 3"
    using entries e by blast
  have links: "list_all (\<lambda>(a, b). a \<noteq> b \<and> a \<in> fst ` set (nodes g) \<and> b \<in> fst ` set (nodes g))
                  (edges g)"
    if h: "\<forall>entries. read_entries ri articles = Inr entries \<longrightarrow>
               links_well_formed (ref_id ` set entries) (find_cross_references ri entries 3)"
  proof -
    from h entries have "links_well_formed (ref_id ` set entries) (edges g)"
      by (simp add: e)
    then show ?thesis
      by (simp add: links_well_formed_def keys idset)
  qed
  from keys dist each mirror copy links show ?thesis by blast
qed


lemma ex_step_8:
  "step_8_origin (ex_reference_index [(1, 2)]) ex_articles
     = Inr \<lparr>nodes = [(1, \<lparr>refId = 1, node_url = map of_char ''http://a.example/1'',
                           node_text = map of_char ''quoting page'',
                           node_title = map of_char ''quoting page'', node_sources = [],
                           pubDate = Some ''2020.03.11'', node_authors = [],
                           node_body = ''quoting page''\<rparr>),
                      (2, \<lparr>refId = 2, node_url = map of_char ''http://d.example/4'',
                           node_text = map of_char ''second quoting page'',
                           node_title = map of_char ''second quoting page'', node_sources = [],
                           pubDate = None, node_authors = [],
                           node_body = ''second quoting page''\<rparr>)],
            edges = [(1, 2)]\<rparr>"
  by code_simp

lemma ex_step_8_isolated:
  "(case step_8_origin (ex_reference_index []) ex_articles of
      Inl e \<Rightarrow> None | Inr g \<Rightarrow> Some (edges g, map fst (nodes g))) = Some ([], [1, 2])"
  by code_simp

lemma ex_step_8_duplicate:
  "(case step_8_origin (ex_reference_index [(1, 2), (2, 1)]) ex_articles of
      Inl e \<Rightarrow> None | Inr g \<Rightarrow> Some (edges g, map fst (nodes g)))
     = Some ([(1, 2), (2, 1)], [1, 2])"
  by code_simp

theorem graph_well_formed_witness:
  "(\<exists>g. step_8_origin (ex_reference_index [(1, 2)]) ex_articles = Inr g
        \<and> edges g = [(1, 2)]
        \<and> fst ` set (nodes g) = {1, 2}
        \<and> list_all (\<lambda>(a, b). a \<noteq> b \<and> a \<in> fst ` set (nodes g) \<and> b \<in> fst ` set (nodes g))
             (edges g))
   \<and> distinct (map ad_id ex_articles)
   \<and> \<not> (\<exists>entries. read_entries (ex_reference_index [(1, 2)]) ex_articles = Inr entries
          \<and> \<not> links_well_formed (ref_id ` set entries)
                (find_cross_references (ex_reference_index [(1, 2)]) entries 3))
   \<and> (\<exists>g. step_8_origin (ex_reference_index []) ex_articles = Inr g
        \<and> edges g = [] \<and> fst ` set (nodes g) = {1, 2})"
proof -
  let ?ri = "ex_reference_index [(1, 2)]"
  obtain g where g: "step_8_origin ?ri ex_articles = Inr g" and eg: "edges g = [(1, 2)]"
    using ex_step_8 by simp
  have ids: "ad_id ` set ex_articles = {1, 2}"
    by (auto simp: ex_articles_def ex_article_data_def)
  have d: "distinct (map ad_id ex_articles)"
    by (simp add: ex_articles_def ex_article_data_def)
  have h: "\<forall>entries. read_entries ?ri ex_articles = Inr entries \<longrightarrow>
      links_well_formed (ref_id ` set entries) (find_cross_references ?ri entries 3)"
  proof (intro allI impI)
    fix entries assume r: "read_entries ?ri ex_articles = Inr entries"
    from read_entries_ids [OF r] have "ref_id ` set entries = ad_id ` set ex_articles"
      by (metis set_map)
    with ids show "links_well_formed (ref_id ` set entries) (find_cross_references ?ri entries 3)"
      by (simp add: links_well_formed_def ex_reference_index_def)
  qed
  note t = graph_well_formed [OF g]
  from t ids have 1: "fst ` set (nodes g) = {1, 2}" by simp
  from t h have 5: "list_all (\<lambda>(a, b). a \<noteq> b \<and> a \<in> fst ` set (nodes g)
      \<and> b \<in> fst ` set (nodes g)) (edges g)"
    by blast
  obtain g0 where g0: "step_8_origin (ex_reference_index []) ex_articles = Inr g0"
    and eg0: "edges g0 = []"
    using ex_step_8_isolated
    by (cases "step_8_origin (ex_reference_index []) ex_articles") auto
  from graph_well_formed [OF g0] ids have 2: "fst ` set (nodes g0) = {1, 2}" by simp
  from h have 3: "\<not> (\<exists>entries. read_entries ?ri ex_articles = Inr entries
          \<and> \<not> links_well_formed (ref_id ` set entries) (find_cross_references ?ri entries 3))"
    by blast
  from g eg 1 5 d 2 3 g0 eg0 show ?thesis by blast
qed

text \<open>
  The claim as stated has no unordered pair twice among the edges whenever the index
  returns pairs of two different ids of indexed entries. In the example the index returns
  the pair of the two entries in both orders: each link is a pair of two different indexed
  ids, both become edges, and the unordered pair occurs twice.
\<close>

theorem graph_duplicate_edges_counterexample:
  "ad_id ` set ex_articles = {1, 2}
   \<and> list_all (\<lambda>(a, b). a \<noteq> b \<and> a \<in> {1, 2} \<and> b \<in> {1, 2}) [(1, 2), (2, 1) :: int \<times> int]
   \<and> (case step_8_origin (ex_reference_index [(1, 2), (2, 1)]) ex_articles of
         Inl e \<Rightarrow> None | Inr g \<Rightarrow> Some (edges g, map fst (nodes g)))
       = Some ([(1, 2), (2, 1)], [1, 2])
   \<and> \<not> distinct (map (\<lambda>(a, b). {a, b}) [(1, 2), (2, 1) :: int \<times> int])"
proof -
  have "ad_id ` set ex_articles = {1, 2}"
    by (auto simp: ex_articles_def ex_article_data_def)
  moreover have "list_all (\<lambda>(a, b). a \<noteq> b \<and> a \<in> {1, 2} \<and> b \<in> {1, 2})
      [(1, 2), (2, 1) :: int \<times> int]"
    by simp
  moreover have "\<not> distinct (map (\<lambda>(a, b). {a, b}) [(1, 2), (2, 1) :: int \<times> int])"
    by (simp add: insert_commute)
  ultimately show ?thesis using ex_step_8_duplicate by simp
qed

end
